theory Spec2Isabelle
  imports Main "HOL-Library.Sublist"
begin

section \<open>Values of the package\<close>

text \<open>
  The package \<^verbatim>\<open>nls\<close> (file \<^verbatim>\<open>scope.go\<close>) keeps a tree of \<^verbatim>\<open>*Scope\<close> objects.
  Scopes are shared by pointer (a child's \<^verbatim>\<open>detach\<close> closure mutates its parent;
  \<^verbatim>\<open>NewChildScope\<close> may hand back its receiver), so they live in an explicit store and
  a \<^verbatim>\<open>*Scope\<close> is an address into it.

  Everything outside the package that the callbacks read or change (flags, services,
  the clock a context watches) is one value \<open>'w\<close>, the world, threaded through every
  call. A callback (a Reaper that is not \<^verbatim>\<open>nil\<close>, a Spawner, an error handler) is a
  function of the world only: it cannot reach the store, it returns, and it does not
  panic. Spawners and error handlers are funcs that are not \<^verbatim>\<open>nil\<close>. Goroutines are
  not modelled: one caller runs at a time, and the world changes only inside a
  callback.
\<close>

datatype state = Active | Done

fun state_string :: "state \<Rightarrow> string" where
  "state_string Active = ''active''"
| "state_string Done = ''done''"

text \<open>
  A Go \<^verbatim>\<open>error\<close> is \<open>'x error option\<close>, \<open>None\<close> being \<^verbatim>\<open>nil\<close>. \<open>Errorf\<close> is an error
  made by \<^verbatim>\<open>fmt.Errorf\<close> inside the package, \<open>Err\<close> any error of the caller's.
\<close>

datatype 'x error = Errorf string | Err 'x

text \<open>How a call ends: it returns, it panics, or it blocks for ever on a mutex.\<close>

datatype 'a outcome = Returned 'a | Panicked | Deadlock

text \<open>
  \<^verbatim>\<open>context.Context\<close> is used through \<^verbatim>\<open>ctx.Err()\<close> only, which reads the world.
\<close>

type_synonym ('x, 'w) Context = "'w \<Rightarrow> 'x error option"

text \<open>
  \<^verbatim>\<open>type Reaper func(context.Context) error\<close>. A func value may be \<^verbatim>\<open>nil\<close>: \<open>None\<close>.
\<close>

type_synonym ('x, 'w) Reaper = "(('x, 'w) Context \<Rightarrow> 'w \<Rightarrow> 'x error option \<times> 'w) option"

text \<open>\<^verbatim>\<open>type Spawner func(context.Context) (Reaper, error)\<close>\<close>

type_synonym ('x, 'w) Spawner =
  "('x, 'w) Context \<Rightarrow> 'w \<Rightarrow> (('x, 'w) Reaper \<times> 'x error option) \<times> 'w"

text \<open>
  The two closures a \<^verbatim>\<open>detach\<close> field can hold: \<^verbatim>\<open>func() {}\<close> of \<^verbatim>\<open>NewScope\<close>, and the
  closure of \<^verbatim>\<open>NewChildScope\<close>, which captures \<^verbatim>\<open>parent\<close> and \<^verbatim>\<open>ele\<close>.
\<close>

datatype detach_fn = NoDetach | RemoveFrom nat nat

text \<open>
  \<^verbatim>\<open>type Scope struct\<close>. \<open>children\<close> is the \<^verbatim>\<open>*list.List\<close>: the sequence of its
  elements front to back, each a pair of the element's handle (the \<^verbatim>\<open>*list.Element\<close>)
  and its \<^verbatim>\<open>Value\<close>, the address of a child. \<open>errors\<close> is the name of a channel. The
  list is used through \<^verbatim>\<open>PushBack\<close>, \<^verbatim>\<open>Back\<close>, \<^verbatim>\<open>Prev\<close>, \<^verbatim>\<open>Init\<close> and \<^verbatim>\<open>Remove\<close>
  only; \<^verbatim>\<open>Remove\<close> of an element that is not in the list leaves the sequence as it
  is (the list of a scope that is done is emptied by \<^verbatim>\<open>Init\<close> and never walked
  again). The mutex \<^verbatim>\<open>mu\<close> is not a field here: every method takes it on entry and releases it in
  a \<^verbatim>\<open>defer\<close>, so the mutexes held at any moment are those of the calls in progress,
  and \<open>exit\<close> below carries that set.
\<close>

record ('x, 'w) Scope =
  state :: state
  children :: "(nat \<times> nat) list"
  reapers :: "('x, 'w) Reaper list"
  errors :: nat
  detach :: detach_fn

text \<open>
  The store: the scopes allocated so far (a \<^verbatim>\<open>*Scope\<close> is an index into \<open>scopes\<close>; an
  address beyond it stands for a \<^verbatim>\<open>nil\<close> pointer), and the supplies of fresh list
  elements and fresh channels.
\<close>

record ('x, 'w) store =
  scopes :: "('x, 'w) Scope list"
  next_elem :: nat
  next_chan :: nat

definition empty_store :: "('x, 'w) store" where
  "empty_store = \<lparr>scopes = [], next_elem = 0, next_chan = 0\<rparr>"

definition valid :: "('x, 'w) store \<Rightarrow> nat \<Rightarrow> bool" where
  "valid h s = (s < length (scopes h))"

definition deref :: "('x, 'w) store \<Rightarrow> nat \<Rightarrow> ('x, 'w) Scope" where
  "deref h s = scopes h ! s"

definition assign :: "nat \<Rightarrow> ('x, 'w) Scope \<Rightarrow> ('x, 'w) store \<Rightarrow> ('x, 'w) store" where
  "assign s sc h = h\<lparr>scopes := (scopes h)[s := sc]\<rparr>"

section \<open>Construction\<close>

text \<open>\<^verbatim>\<open>type ScopeOpt func(*Scope)\<close>; the package builds them with \<^verbatim>\<open>WithErrorChan\<close> only.\<close>

datatype ScopeOpt = WithErrorChan nat

fun apply_ScopeOpt :: "ScopeOpt \<Rightarrow> ('x, 'w) Scope \<Rightarrow> ('x, 'w) Scope" where
  "apply_ScopeOpt (WithErrorChan errs) s = s\<lparr>errors := errs\<rparr>"

text \<open>
  \<^verbatim>\<open>NewScope\<close>: the new scope is stored at the next free address, which is returned.
\<close>

definition NewScope :: "ScopeOpt list \<Rightarrow> ('x, 'w) store \<Rightarrow> nat \<times> ('x, 'w) store" where
  "NewScope opts h =
     (let s = \<lparr>state = Active, children = [], reapers = [],
               errors = next_chan h, detach = NoDetach\<rparr>;
          s' = fold apply_ScopeOpt opts s
      in (length (scopes h),
          h\<lparr>scopes := scopes h @ [s'], next_chan := Suc (next_chan h)\<rparr>))"

text \<open>
  \<^verbatim>\<open>NewChildScope\<close>. A \<^verbatim>\<open>nil\<close> receiver panics at \<^verbatim>\<open>parent.mu.Lock()\<close>.
\<close>

definition NewChildScope ::
  "nat \<Rightarrow> ScopeOpt list \<Rightarrow> ('x, 'w) store \<Rightarrow> nat outcome \<times> ('x, 'w) store" where
  "NewChildScope s opts h =
     (if \<not> valid h s then (Panicked, h)
      else if state (deref h s) \<noteq> Active then (Returned s, h)
      else
        (let (child, h1) = NewScope opts h;
             ele = next_elem h1;
             parent = deref h1 s;
             h2 = assign s (parent\<lparr>children := children parent @ [(ele, child)]\<rparr>)
                    (h1\<lparr>next_elem := Suc ele\<rparr>);
             h3 = assign child ((deref h2 child)\<lparr>detach := RemoveFrom s ele\<rparr>) h2
         in (Returned child, h3)))"

section \<open>Registration\<close>

text \<open>
  \<^verbatim>\<open>Spawn\<close>. The error of the inactive case is
  \<^verbatim>\<open>fmt.Errorf("cannot spawn in scope with state %q", s.state)\<close>.
\<close>

definition not_active_error :: "state \<Rightarrow> 'x error" where
  "not_active_error st =
     Errorf (''cannot spawn in scope with state '' @ [CHR 0x22] @ state_string st @ [CHR 0x22])"

definition Spawn ::
  "('x, 'w) Context \<Rightarrow> ('x, 'w) Spawner \<Rightarrow> nat \<Rightarrow> ('x, 'w) store \<times> 'w
     \<Rightarrow> 'x error option outcome \<times> ('x, 'w) store \<times> 'w" where
  "Spawn ctx sp s hw =
     (case hw of (h, w) \<Rightarrow>
        if \<not> valid h s then (Panicked, h, w)
        else if state (deref h s) \<noteq> Active
          then (Returned (Some (not_active_error (state (deref h s)))), h, w)
        else
          (case sp ctx w of ((r, err), w1) \<Rightarrow>
             if err \<noteq> None then (Returned err, h, w1)
             else (Returned None,
                   assign s ((deref h s)\<lparr>reapers := reapers (deref h s) @ [r]\<rparr>) h, w1)))"

text \<open>\<^verbatim>\<open>MustSpawn\<close> panics where \<^verbatim>\<open>Spawn\<close> returns an error.\<close>

definition MustSpawn ::
  "('x, 'w) Context \<Rightarrow> nat \<Rightarrow> ('x, 'w) Spawner \<Rightarrow> ('x, 'w) store \<times> 'w
     \<Rightarrow> unit outcome \<times> ('x, 'w) store \<times> 'w" where
  "MustSpawn ctx sc sp hw =
     (case Spawn ctx sp sc hw of
        (Returned None, hw1) \<Rightarrow> (Returned (), hw1)
      | (Returned (Some err), hw1) \<Rightarrow> (Panicked, hw1)
      | (Panicked, hw1) \<Rightarrow> (Panicked, hw1)
      | (Deadlock, hw1) \<Rightarrow> (Deadlock, hw1))"

section \<open>Teardown\<close>

text \<open>\<^verbatim>\<open>type exitCfg struct\<close> and its option \<^verbatim>\<open>WithErrorHandler\<close>.\<close>

record ('x, 'w) exitCfg =
  onError :: "'x error \<Rightarrow> 'w \<Rightarrow> 'w"

datatype ('x, 'w) ExitOpt = WithErrorHandler "'x error \<Rightarrow> 'w \<Rightarrow> 'w"

fun apply_ExitOpt :: "('x, 'w) ExitOpt \<Rightarrow> ('x, 'w) exitCfg \<Rightarrow> ('x, 'w) exitCfg" where
  "apply_ExitOpt (WithErrorHandler eh) cfg = cfg\<lparr>onError := eh\<rparr>"

text \<open>
  The two statements both loops of \<^verbatim>\<open>exit\<close> run after a step returned \<open>err\<close>:
  \<^verbatim>\<open>if err != nil && err != ctx.Err() { ec.onError(err) }\<close>, then the context is read
  again by the caller of this function.
\<close>

definition report :: "('x, 'w) Context \<Rightarrow> ('x, 'w) exitCfg \<Rightarrow> 'x error option \<Rightarrow> 'w \<Rightarrow> 'w" where
  "report ctx ec err w =
     (case err of None \<Rightarrow> w
      | Some e \<Rightarrow> if Some e \<noteq> ctx w then onError ec e w else w)"

text \<open>
  The second loop of \<^verbatim>\<open>exit\<close>, \<^verbatim>\<open>for i := len(s.reapers) - 1; i >= 0; i--\<close>, over the
  reapers still to run, the next one first. Calling a \<^verbatim>\<open>nil\<close> Reaper panics.
\<close>

fun run_reapers ::
  "('x, 'w) Context \<Rightarrow> ('x, 'w) exitCfg \<Rightarrow> ('x, 'w) Reaper list \<Rightarrow> 'w
     \<Rightarrow> 'x error option outcome \<times> 'w" where
  "run_reapers ctx ec [] w = (Returned None, w)"
| "run_reapers ctx ec (None # rs) w = (Panicked, w)"
| "run_reapers ctx ec (Some r # rs) w =
     (case r ctx w of (err, w1) \<Rightarrow>
        (let w2 = report ctx ec err w1 in
         case ctx w2 of
           Some ctxerr \<Rightarrow> (Returned (Some ctxerr), w2)
         | None \<Rightarrow> run_reapers ctx ec rs w2))"

text \<open>The deferred function of \<^verbatim>\<open>exit\<close> (the unlock apart).\<close>

definition finalize :: "nat \<Rightarrow> ('x, 'w) store \<Rightarrow> ('x, 'w) store" where
  "finalize s h = assign s ((deref h s)\<lparr>reapers := [], children := [], state := Done\<rparr>) h"

text \<open>
  \<^verbatim>\<open>exit\<close>, with the first loop as \<open>exit_children\<close> over the elements still to visit,
  \<^verbatim>\<open>Back()\<close> first. \<open>held\<close> is the set of scopes whose mutex the calls in progress hold:
  \<^verbatim>\<open>s.mu.Lock()\<close> on one of them never returns. A scope's \<^verbatim>\<open>children\<close> can only change
  under its mutex, which this call holds throughout the loop, so the loop walks the
  list as it was at \<^verbatim>\<open>Back()\<close>. The deferred function runs on every way out but a
  deadlock.
\<close>

function exit ::
    "nat set \<Rightarrow> ('x, 'w) Context \<Rightarrow> ('x, 'w) exitCfg \<Rightarrow> nat \<Rightarrow> ('x, 'w) store \<times> 'w
       \<Rightarrow> 'x error option outcome \<times> ('x, 'w) store \<times> 'w"
  and exit_children ::
    "nat set \<Rightarrow> ('x, 'w) Context \<Rightarrow> ('x, 'w) exitCfg \<Rightarrow> (nat \<times> nat) list
       \<Rightarrow> ('x, 'w) store \<times> 'w \<Rightarrow> 'x error option outcome \<times> ('x, 'w) store \<times> 'w"
where
  "exit held ctx ec s (h, w) =
     (if \<not> valid h s then (Panicked, h, w)
      else if s \<in> held then (Deadlock, h, w)
      else if state (deref h s) \<noteq> Active then (Returned None, finalize s h, w)
      else
        (case exit_children (insert s held) ctx ec (rev (children (deref h s))) (h, w) of
           (Returned None, h1, w1) \<Rightarrow>
             (case run_reapers ctx ec (rev (reapers (deref h1 s))) w1 of
                (out, w2) \<Rightarrow> (out, finalize s h1, w2))
         | (Returned (Some ctxerr), h1, w1) \<Rightarrow> (Returned (Some ctxerr), finalize s h1, w1)
         | (Panicked, h1, w1) \<Rightarrow> (Panicked, finalize s h1, w1)
         | (Deadlock, h1, w1) \<Rightarrow> (Deadlock, h1, w1)))"
| "exit_children held ctx ec [] (h, w) = (Returned None, h, w)"
| "exit_children held ctx ec (ele # eles) (h, w) =
     (case exit held ctx ec (snd ele) (h, w) of
        (Returned err, h1, w1) \<Rightarrow>
          (let w2 = report ctx ec err w1 in
           case ctx w2 of
             Some ctxerr \<Rightarrow> (Returned (Some ctxerr), h1, w2)
           | None \<Rightarrow> exit_children held ctx ec eles (h1, w2))
      | (Panicked, h1, w1) \<Rightarrow> (Panicked, h1, w1)
      | (Deadlock, h1, w1) \<Rightarrow> (Deadlock, h1, w1))"
  by pat_completeness auto


text \<open>
  The recursion ends because every call into a scope takes one more mutex out of
  those the store has; that the store keeps its size is needed first.
\<close>

lemma length_scopes_finalize [simp]: "length (scopes (finalize s h)) = length (scopes h)"
  by (simp add: finalize_def assign_def)

lemma exit_dom_length_scopes:
  "exit_exit_children_dom (Inl (held, ctx, ec, s, hw)) \<Longrightarrow>
     length (scopes (fst (snd (exit held ctx ec s hw)))) = length (scopes (fst hw))"
  "exit_exit_children_dom (Inr (held, ctx, ec, eles, hw)) \<Longrightarrow>
     length (scopes (fst (snd (exit_children held ctx ec eles hw)))) = length (scopes (fst hw))"
proof (induct rule: exit_exit_children.pinduct)
  case (1 held ctx ec s h w)
  then show ?case
    by (auto simp: exit.psimps split: prod.splits outcome.splits option.splits)
next
  case (2 held ctx ec h w)
  then show ?case by (simp add: exit_children.psimps)
next
  case (3 held ctx ec ele eles h w)
  then show ?case
    by (auto simp: exit_children.psimps Let_def split: prod.splits outcome.splits option.splits)
qed

termination exit
proof (relation "measures
    [\<lambda>x. case x of
        Inl (held, ctx, ec, s, hw) \<Rightarrow> card ({..<length (scopes (fst hw))} - held)
      | Inr (held, ctx, ec, eles, hw) \<Rightarrow> card ({..<length (scopes (fst hw))} - held),
     \<lambda>x. case x of Inl _ \<Rightarrow> 0 | Inr (held, ctx, ec, eles, hw) \<Rightarrow> Suc (length eles)]",
    goal_cases)
  case 1
  show ?case by simp
next
  case (2 held ctx ec s h w)
  have "card ({..<length (scopes h)} - insert s held) < card ({..<length (scopes h)} - held)"
    using 2 by (intro psubset_card_mono) (auto simp: valid_def)
  then show ?case by simp
next
  case (3 held ctx ec ele eles h w)
  then show ?case by simp
next
  case (4 held ctx ec ele eles h w x y x1 xa ya xb)
  have "length (scopes (fst (snd (exit held ctx ec (snd ele) (h, w))))) = length (scopes h)"
    using exit_dom_length_scopes(1) 4 by fastforce
  with 4 have "length (scopes xa) = length (scopes h)"
    by (metis fst_conv snd_conv)
  then show ?case by simp
qed

text \<open>
  Running a \<^verbatim>\<open>detach\<close> closure. The closure of \<^verbatim>\<open>NewChildScope\<close> locks the parent
  and calls \<^verbatim>\<open>parent.children.Remove(ele)\<close>, which takes the element out if it is
  in the list.
\<close>

fun run_detach :: "detach_fn \<Rightarrow> ('x, 'w) store \<Rightarrow> unit outcome \<times> ('x, 'w) store" where
  "run_detach NoDetach h = (Returned (), h)"
| "run_detach (RemoveFrom parent ele) h =
     (if \<not> valid h parent then (Panicked, h)
      else (Returned (),
            assign parent ((deref h parent)
              \<lparr>children := filter (\<lambda>e. fst e \<noteq> ele) (children (deref h parent))\<rparr>) h))"

text \<open>
  \<^verbatim>\<open>Exit\<close>. No mutex is held when a caller enters. \<^verbatim>\<open>s.detach()\<close> is not deferred:
  a panic inside \<^verbatim>\<open>s.exit\<close> skips it.
\<close>

definition default_exitCfg :: "('x, 'w) exitCfg" where
  "default_exitCfg = \<lparr>onError = (\<lambda>err w. w)\<rparr>"

definition Exit ::
  "('x, 'w) Context \<Rightarrow> ('x, 'w) ExitOpt list \<Rightarrow> nat \<Rightarrow> ('x, 'w) store \<times> 'w
     \<Rightarrow> 'x error option outcome \<times> ('x, 'w) store \<times> 'w" where
  "Exit ctx opts s hw =
     (let ec = fold apply_ExitOpt opts default_exitCfg in
      case exit {} ctx ec s hw of
        (Returned err, h1, w1) \<Rightarrow>
          (case run_detach (detach (deref h1 s)) h1 of
             (Returned u, h2) \<Rightarrow> (Returned err, h2, w1)
           | (Panicked, h2) \<Rightarrow> (Panicked, h2, w1)
           | (Deadlock, h2) \<Rightarrow> (Deadlock, h2, w1))
      | (Panicked, h1, w1) \<Rightarrow> (Panicked, h1, w1)
      | (Deadlock, h1, w1) \<Rightarrow> (Deadlock, h1, w1))"

text \<open>\<^verbatim>\<open>Err\<close> hands out the channel.\<close>

definition Err_chan :: "('x, 'w) store \<Rightarrow> nat \<Rightarrow> nat" where
  "Err_chan h s = errors (deref h s)"


section \<open>Stores that the package can build\<close>

text \<open>
  The parent that a \<^verbatim>\<open>detach\<close> closure captured is a scope of the store: so it is
  for every scope that \<^verbatim>\<open>NewChildScope\<close> makes.
\<close>

definition parent_valid :: "('x, 'w) store \<Rightarrow> nat \<Rightarrow> bool" where
  "parent_valid h s =
     (case detach (deref h s) of NoDetach \<Rightarrow> True | RemoveFrom p e \<Rightarrow> valid h p)"

text \<open>
  The children of a scope, as a set of addresses, and the shape of every store that
  \<^verbatim>\<open>NewScope\<close> and \<^verbatim>\<open>NewChildScope\<close> build: a child is a scope of the store
  allocated after its parent, no scope is the child of two parents, and no scope is
  twice in one list. \<open>desc h s\<close> is the subtree of \<open>s\<close>: \<open>s\<close> and all below it.
\<close>

definition kids :: "('x, 'w) store \<Rightarrow> nat \<Rightarrow> nat set" where
  "kids h a = (if valid h a then snd ` set (children (deref h a)) else {})"

definition forest :: "('x, 'w) store \<Rightarrow> bool" where
  "forest h =
     ((\<forall>a. \<forall>c \<in> kids h a. a < c \<and> valid h c) \<and>
      (\<forall>a b. \<forall>c \<in> kids h a. c \<in> kids h b \<longrightarrow> a = b) \<and>
      (\<forall>a. valid h a \<longrightarrow> distinct (map snd (children (deref h a)))))"

definition desc :: "('x, 'w) store \<Rightarrow> nat \<Rightarrow> nat set" where
  "desc h s = {x. (s, x) \<in> {(a, c). c \<in> kids h a}\<^sup>*}"

section \<open>The order of teardown, as the specification words it\<close>

text \<open>
  The Cleanup Actions below an active scope in the order the specification gives:
  the children from the most recently created to the least recently created, each
  with all that is below it, and then the scope's own Cleanup Actions from the most
  recently registered to the least recently registered. A scope that is not active
  contributes nothing. (\<open>held\<close> are the scopes on the path from the root of the walk;
  in a forest none of them is met again.)
\<close>

function teardown_order :: "nat set \<Rightarrow> ('x, 'w) store \<Rightarrow> nat \<Rightarrow> ('x, 'w) Reaper list" where
  "teardown_order held h s =
     (if \<not> valid h s \<or> s \<in> held \<or> state (deref h s) \<noteq> Active then []
      else concat (map (\<lambda>ele. teardown_order (insert s held) h (snd ele))
                    (rev (children (deref h s))))
           @ rev (reapers (deref h s)))"
  by pat_completeness auto
termination
proof (relation "measure (\<lambda>(held, h, s). card ({..<length (scopes h)} - held))", goal_cases)
  case 1
  show ?case by simp
next
  case (2 held h s ele)
  have "card ({..<length (scopes h)} - insert s held) < card ({..<length (scopes h)} - held)"
    using 2 by (intro psubset_card_mono) (auto simp: valid_def)
  then show ?case by simp
qed

declare teardown_order.simps [simp del]

text \<open>
  One step of teardown as the specification words it: the Cleanup Action runs, and
  if it returns an error that is not the context's error, as the context stands when
  the action has returned, the observer is called with it, once.
\<close>

definition reap_step ::
  "('x, 'w) Context \<Rightarrow> ('x, 'w) exitCfg
     \<Rightarrow> (('x, 'w) Context \<Rightarrow> 'w \<Rightarrow> 'x error option \<times> 'w) \<Rightarrow> 'w \<Rightarrow> 'w" where
  "reap_step ctx ec r w =
     (case r ctx w of
        (None, w1) \<Rightarrow> w1
      | (Some e, w1) \<Rightarrow> if Some e \<noteq> ctx w1 then onError ec e w1 else w1)"

text \<open>
  \<open>unexpired_between ctx ec Q w\<close>: running the actions \<open>Q\<close> one after the other from the
  world \<open>w\<close>, the context is unexpired after each of them but the last.
  \<open>ran ctx ec P w out w'\<close>: a walk that was to run the actions \<open>P\<close> from the world \<open>w\<close>
  ended with \<open>out\<close> in the world \<open>w'\<close>, having run exactly a front part \<open>Q\<close> of \<open>P\<close>, in
  that order, each action once: all of \<open>P\<close> if it returned \<^verbatim>\<open>nil\<close>; if it returned an
  error, that is the context's error in \<open>w'\<close>; if it panicked, the next action of \<open>P\<close>
  is a \<^verbatim>\<open>nil\<close> func.
\<close>

definition unexpired_between ::
  "('x, 'w) Context \<Rightarrow> ('x, 'w) exitCfg
     \<Rightarrow> (('x, 'w) Context \<Rightarrow> 'w \<Rightarrow> 'x error option \<times> 'w) list \<Rightarrow> 'w \<Rightarrow> bool" where
  "unexpired_between ctx ec Q w =
     (\<forall>k. 0 < k \<and> k < length Q \<longrightarrow> ctx (fold (reap_step ctx ec) (take k Q) w) = None)"

definition ran ::
  "('x, 'w) Context \<Rightarrow> ('x, 'w) exitCfg \<Rightarrow> ('x, 'w) Reaper list \<Rightarrow> 'w
     \<Rightarrow> 'x error option outcome \<Rightarrow> 'w \<Rightarrow> bool" where
  "ran ctx ec P w out w' =
     (\<exists>Q. prefix (map Some Q) P \<and> w' = fold (reap_step ctx ec) Q w \<and>
          unexpired_between ctx ec Q w \<and>
          (out = Returned None \<longrightarrow> map Some Q = P \<and> (Q \<noteq> [] \<longrightarrow> ctx w' = None)) \<and>
          (\<forall>e. out = Returned (Some e) \<longrightarrow> ctx w' = Some e) \<and>
          (out = Panicked \<longrightarrow> prefix (map Some Q @ [None]) P))"

text \<open>
  What the deferred function makes of a scope, and \<open>changes h h' A\<close>: the store \<open>h'\<close>
  is \<open>h\<close> but for scopes of \<open>A\<close> that the deferred function has been through.
\<close>

definition finalized :: "('x, 'w) Scope \<Rightarrow> ('x, 'w) Scope" where
  "finalized sc = sc\<lparr>reapers := [], children := [], state := Done\<rparr>"

definition changes :: "('x, 'w) store \<Rightarrow> ('x, 'w) store \<Rightarrow> nat set \<Rightarrow> bool" where
  "changes h h' A =
     (length (scopes h') = length (scopes h) \<and>
      (\<forall>a. valid h a \<longrightarrow>
         deref h' a = deref h a \<or> (a \<in> A \<and> deref h' a = finalized (deref h a))))"

section \<open>Callbacks and stores of the examples\<close>

text \<open>
  In the examples the world is a log of numbers: a callback appends its own number
  when it runs. Errors of the caller are strings.
\<close>

definition background :: "(string, nat list) Context" where
  "background = (\<lambda>w. None)"

definition expired :: "(string, nat list) Context" where
  "expired = (\<lambda>w. Some (Err ''context deadline exceeded''))"

definition mark :: "nat \<Rightarrow> (string, nat list) Reaper" where
  "mark n = Some (\<lambda>ctx w. (None, w @ [n]))"

definition failing :: "nat \<Rightarrow> string \<Rightarrow> (string, nat list) Reaper" where
  "failing n e = Some (\<lambda>ctx w. (Some (Err e), w @ [n]))"

definition spawning :: "nat \<Rightarrow> (string, nat list) Reaper \<Rightarrow> (string, nat list) Spawner" where
  "spawning n r = (\<lambda>ctx w. ((r, None), w @ [n]))"

definition spawn_failing :: "string \<Rightarrow> (string, nat list) Spawner" where
  "spawn_failing e = (\<lambda>ctx w. ((None, Some (Err e)), w))"

text \<open>One fresh scope, at address 0; and the same scope after \<^verbatim>\<open>Exit\<close>.\<close>

definition root_store :: "(string, nat list) store" where
  "root_store = snd (NewScope [] empty_store)"

definition done_store :: "(string, nat list) store" where
  "done_store = fst (snd (Exit background [] 0 (root_store, [])))"

text \<open>The fresh scope after two registrations: Cleanup Action 1, then Cleanup Action 2.\<close>

definition two_store :: "(string, nat list) store" where
  "two_store = fst (snd (Spawn background (spawning 0 (mark 2)) 0
                 (fst (snd (Spawn background (spawning 0 (mark 1)) 0 (root_store, []))), [])))"

text \<open>And after a third registration, of Cleanup Action 3.\<close>

definition three_store :: "(string, nat list) store" where
  "three_store = fst (snd (Spawn background (spawning 0 (mark 3)) 0 (two_store, [])))"

text \<open>A Spawner that succeeds with a \<^verbatim>\<open>nil\<close> Reaper, as the Spawners of \<^verbatim>\<open>TestDoneState\<close> do.\<close>

definition spawn_nil :: "(string, nat list) Spawner" where
  "spawn_nil = (\<lambda>ctx w. ((None, None), w))"

text \<open>
  The fresh scope after one registration, of Cleanup Action 1; and a parent (address 0,
  Cleanup Action 4) with one child (address 1, Cleanup Action 5).
\<close>

definition one_store :: "(string, nat list) store" where
  "one_store = fst (snd (Spawn background (spawning 0 (mark 1)) 0 (root_store, [])))"

definition parent_child_store :: "(string, nat list) store" where
  "parent_child_store =
     fst (snd (Spawn background (spawning 0 (mark 5)) 1
       (fst (snd (Spawn background (spawning 0 (mark 4)) 0
          (snd (NewChildScope 0 [] root_store), []))), [])))"

text \<open>
  The tree of \<^verbatim>\<open>TestParentChild\<close>, built by the calls the test makes: the root R at
  address 0, its child A at 1, A's children B at 2 and C at 3, R's second child D at
  4, and D's child E at 5; then one Cleanup Action per scope, registered through
  \<^verbatim>\<open>MustSpawn\<close> in the order R, A, B, C, D, E. \<open>family\<close> is that tree with the
  Cleanup Action of the scope at address \<open>n\<close> appending \<open>n\<close> to the log.
\<close>

definition spawn_of ::
  "(('x, 'w) Context \<Rightarrow> 'w \<Rightarrow> 'x error option \<times> 'w) \<Rightarrow> ('x, 'w) Spawner" where
  "spawn_of r = (\<lambda>ctx w. ((Some r, None), w))"

definition child_of :: "nat \<Rightarrow> ('x, 'w) store \<Rightarrow> ('x, 'w) store" where
  "child_of p h = snd (NewChildScope p [] h)"

definition tree_store :: "('x, 'w) store" where
  "tree_store = child_of 4 (child_of 0 (child_of 1 (child_of 1 (child_of 0
                  (snd (NewScope [] empty_store))))))"

definition must_spawn ::
  "('x, 'w) Context \<Rightarrow> nat \<Rightarrow> (('x, 'w) Context \<Rightarrow> 'w \<Rightarrow> 'x error option \<times> 'w)
     \<Rightarrow> ('x, 'w) store \<times> 'w \<Rightarrow> ('x, 'w) store \<times> 'w" where
  "must_spawn ctx s r hw = snd (MustSpawn ctx s (spawn_of r) hw)"

definition tree_spawned ::
  "('x, 'w) Context \<Rightarrow> (('x, 'w) Context \<Rightarrow> 'w \<Rightarrow> 'x error option \<times> 'w) list \<Rightarrow> 'w
     \<Rightarrow> ('x, 'w) store \<times> 'w" where
  "tree_spawned ctx rs w =
     must_spawn ctx 5 (rs ! 5) (must_spawn ctx 4 (rs ! 4) (must_spawn ctx 3 (rs ! 3)
       (must_spawn ctx 2 (rs ! 2) (must_spawn ctx 1 (rs ! 1) (must_spawn ctx 0 (rs ! 0)
         (tree_store, w))))))"

definition marker :: "nat \<Rightarrow> (string, nat list) Context \<Rightarrow> nat list \<Rightarrow> string error option \<times> nat list" where
  "marker n = (\<lambda>ctx w. (None, w @ [n]))"

definition family :: "(string, nat list) store \<times> nat list" where
  "family = tree_spawned background [marker 0, marker 1, marker 2, marker 3, marker 4, marker 5] []"

text \<open>
  A scope whose one Cleanup Action appends 1 to the log and fails with the error
  \<^verbatim>\<open>boom\<close>; and an observer that appends 100 to the log each time it is called.
\<close>

definition fail_store :: "(string, nat list) store" where
  "fail_store = fst (snd (Spawn background (spawning 0 (failing 1 ''boom'')) 0 (root_store, [])))"

definition observer :: "(string, nat list) ExitOpt" where
  "observer = WithErrorHandler (\<lambda>err w. w @ [100])"

lemmas example_defs = background_def expired_def mark_def failing_def spawning_def
  spawn_failing_def root_store_def done_store_def empty_store_def NewScope_def
  NewChildScope_def Spawn_def Exit_def default_exitCfg_def valid_def deref_def assign_def
  finalize_def report_def parent_valid_def

section \<open>The store under the operations\<close>

lemma valid_finalize [simp]: "valid (finalize s h) a = valid h a"
  by (simp add: valid_def)

lemma valid_assign [simp]: "valid (assign s sc h) a = valid h a"
  by (simp add: valid_def assign_def)

lemma deref_assign: "valid h s \<Longrightarrow> deref (assign s sc h) a = (if a = s then sc else deref h a)"
  by (simp add: valid_def deref_def assign_def)

lemma deref_finalize:
  "valid h s \<Longrightarrow> deref (finalize s h) a =
     (if a = s then (deref h s)\<lparr>reapers := [], children := [], state := Done\<rparr> else deref h a)"
  by (simp add: finalize_def deref_assign)

lemma assign_same: "deref h s = sc \<Longrightarrow> assign s sc h = h"
  by (cases h) (auto simp: deref_def assign_def)

lemma fold_apply_ScopeOpt_fields [simp]:
  "state (fold apply_ScopeOpt opts sc) = state sc"
  "children (fold apply_ScopeOpt opts sc) = children sc"
  "reapers (fold apply_ScopeOpt opts sc) = reapers sc"
  "detach (fold apply_ScopeOpt opts sc) = detach sc"
proof (induction opts arbitrary: sc)
  case Nil
  { case 1 show ?case by simp }
  { case 2 show ?case by simp }
  { case 3 show ?case by simp }
  { case 4 show ?case by simp }
next
  case (Cons opt opts)
  obtain c where opt: "opt = WithErrorChan c" by (cases opt)
  { case 1 show ?case using Cons.IH(1)[of "sc\<lparr>errors := c\<rparr>"] by (simp add: opt) }
  { case 2 show ?case using Cons.IH(2)[of "sc\<lparr>errors := c\<rparr>"] by (simp add: opt) }
  { case 3 show ?case using Cons.IH(3)[of "sc\<lparr>errors := c\<rparr>"] by (simp add: opt) }
  { case 4 show ?case using Cons.IH(4)[of "sc\<lparr>errors := c\<rparr>"] by (simp add: opt) }
qed

lemma exit_length_scopes:
  "length (scopes (fst (snd (exit held ctx ec s hw)))) = length (scopes (fst hw))"
  "length (scopes (fst (snd (exit_children held ctx ec eles hw)))) = length (scopes (fst hw))"
  by (induct held ctx ec s hw and held ctx ec eles hw rule: exit_exit_children.induct)
     (auto simp: Let_def split: prod.splits outcome.splits option.splits)

lemma exit_valid:
  "exit held ctx ec s (h, w) = (out, h', w') \<Longrightarrow> valid h' a = valid h a"
  using exit_length_scopes(1)[of held ctx ec s "(h, w)"] by (simp add: valid_def)



lemma Exit_inactive:
  assumes "valid h s" and "state (deref h s) \<noteq> Active"
  shows "Exit ctx opts s (h, w) =
           (case run_detach (detach (deref h s)) (finalize s h) of
              (Returned u, h2) \<Rightarrow> (Returned None, h2, w)
            | (Panicked, h2) \<Rightarrow> (Panicked, h2, w)
            | (Deadlock, h2) \<Rightarrow> (Deadlock, h2, w))"
  using assms by (simp add: Exit_def deref_finalize)

section \<open>Subtrees of a forest\<close>

lemma desc_refl [simp]: "s \<in> desc h s"
  by (simp add: desc_def)

lemma desc_step: "x \<in> desc h s \<Longrightarrow> c \<in> kids h x \<Longrightarrow> c \<in> desc h s"
  unfolding desc_def by (auto intro: rtrancl_into_rtrancl)

lemma desc_cases: "x \<in> desc h s \<Longrightarrow> x = s \<or> (\<exists>y \<in> desc h s. x \<in> kids h y)"
  unfolding desc_def by (auto elim: rtranclE)

lemma desc_induct [consumes 1, case_names base step]:
  assumes "x \<in> desc h s" and "P s" and "\<And>y c. y \<in> desc h s \<Longrightarrow> P y \<Longrightarrow> c \<in> kids h y \<Longrightarrow> P c"
  shows "P x"
proof -
  have "(s, x) \<in> {(a, c). c \<in> kids h a}\<^sup>*" using assms(1) by (simp add: desc_def)
  then show ?thesis
    by (induction rule: rtrancl_induct) (use assms(2,3) in \<open>auto simp: desc_def\<close>)
qed

lemma desc_trans: "y \<in> desc h x \<Longrightarrow> x \<in> desc h s \<Longrightarrow> y \<in> desc h s"
  unfolding desc_def by auto

lemma desc_kid_subset: "c \<in> kids h s \<Longrightarrow> desc h c \<subseteq> desc h s"
  by (meson desc_refl desc_step desc_trans subsetI)

lemma desc_mono:
  assumes "\<And>a. kids h1 a \<subseteq> kids h a"
  shows "desc h1 s \<subseteq> desc h s"
proof
  fix x assume "x \<in> desc h1 s"
  then show "x \<in> desc h s"
    by (induction rule: desc_induct) (use assms in \<open>auto intro: desc_step\<close>)
qed

lemma forest_lt: "forest h \<Longrightarrow> c \<in> kids h a \<Longrightarrow> a < c"
  by (simp add: forest_def)

lemma forest_valid: "forest h \<Longrightarrow> c \<in> kids h a \<Longrightarrow> valid h c"
  by (simp add: forest_def)

lemma forest_uniq: "forest h \<Longrightarrow> c \<in> kids h a \<Longrightarrow> c \<in> kids h b \<Longrightarrow> a = b"
  unfolding forest_def by blast

lemma forest_distinct: "forest h \<Longrightarrow> valid h a \<Longrightarrow> distinct (map snd (children (deref h a)))"
  by (simp add: forest_def)

lemma desc_ge:
  assumes "forest h" and "x \<in> desc h c"
  shows "c \<le> x"
  using assms(2)
proof (induction rule: desc_induct)
  case base
  show ?case by simp
next
  case (step y k)
  from step.hyps have "y < k" using forest_lt[OF assms(1)] by blast
  with step.IH show ?case by simp
qed

lemma desc_comparable:
  assumes "forest h" and "x \<in> desc h c" and "x \<in> desc h c'"
  shows "c \<in> desc h c' \<or> c' \<in> desc h c"
  using assms(2,3)
proof (induction rule: desc_induct)
  case base
  then show ?case by simp
next
  case (step y k)
  from desc_cases[OF step.prems] show ?case
  proof
    assume "k = c'"
    with step.hyps have "c' \<in> desc h c" by (simp add: desc_step)
    then show ?thesis ..
  next
    assume "\<exists>y' \<in> desc h c'. k \<in> kids h y'"
    then obtain y' where y': "y' \<in> desc h c'" "k \<in> kids h y'" by blast
    have "y = y'" using forest_uniq[OF assms(1) step.hyps(2) y'(2)] .
    with y'(1) show ?thesis by (simp add: step.IH)
  qed
qed

lemma sibling_not_desc:
  assumes f: "forest h" and a: "a \<in> kids h p" and b: "b \<in> kids h p" and ne: "a \<noteq> b"
  shows "a \<notin> desc h b"
proof
  assume "a \<in> desc h b"
  from desc_cases[OF this] ne obtain y where y: "y \<in> desc h b" "a \<in> kids h y" by blast
  have "y = p" using forest_uniq[OF f y(2) a] .
  with y(1) have "b \<le> p" using desc_ge[OF f] by simp
  moreover have "p < b" using forest_lt[OF f b] .
  ultimately show False by simp
qed

lemma siblings_disjoint:
  assumes f: "forest h" and c: "c \<in> kids h p" and c': "c' \<in> kids h p" and ne: "c \<noteq> c'"
  shows "desc h c \<inter> desc h c' = {}"
proof (rule ccontr)
  assume "desc h c \<inter> desc h c' \<noteq> {}"
  then obtain x where x: "x \<in> desc h c" "x \<in> desc h c'" by blast
  have 1: "c \<notin> desc h c'" using sibling_not_desc[OF f c c' ne] .
  have 2: "c' \<notin> desc h c" using sibling_not_desc[OF f c' c] ne by simp
  from desc_comparable[OF f x] 1 2 show False by simp
qed


section \<open>What \<open>exit\<close> changes in the store\<close>

lemma finalized_idem [simp]: "finalized (finalized sc) = finalized sc"
  by (simp add: finalized_def)

lemma changes_refl [simp]: "changes h h A"
  by (simp add: changes_def)

lemma changes_weaken: "changes h h' A \<Longrightarrow> A \<subseteq> B \<Longrightarrow> changes h h' B"
  unfolding changes_def by blast

lemma changes_valid: "changes h h' A \<Longrightarrow> valid h' a = valid h a"
  by (simp add: changes_def valid_def)

lemma changes_trans:
  assumes "changes h h1 A" and "changes h1 h2 B"
  shows "changes h h2 (A \<union> B)"
  unfolding changes_def
proof (intro conjI allI impI)
  show "length (scopes h2) = length (scopes h)" using assms by (simp add: changes_def)
next
  fix a assume v: "valid h a"
  then have v1: "valid h1 a" using changes_valid[OF assms(1)] by simp
  from assms(1) v have 1: "deref h1 a = deref h a \<or> (a \<in> A \<and> deref h1 a = finalized (deref h a))"
    by (simp add: changes_def)
  from assms(2) v1 have 2: "deref h2 a = deref h1 a \<or> (a \<in> B \<and> deref h2 a = finalized (deref h1 a))"
    by (simp add: changes_def)
  from 1 2 show "deref h2 a = deref h a \<or> (a \<in> A \<union> B \<and> deref h2 a = finalized (deref h a))"
    by auto
qed

lemma changes_finalize: "valid h s \<Longrightarrow> changes h (finalize s h) {s}"
  by (simp add: changes_def deref_finalize finalized_def)

lemma changes_outside: "changes h h' A \<Longrightarrow> valid h a \<Longrightarrow> a \<notin> A \<Longrightarrow> deref h' a = deref h a"
  unfolding changes_def by blast

lemma changes_kids:
  assumes "changes h h' A"
  shows "kids h' a \<subseteq> kids h a"
proof (cases "valid h a")
  case True
  with assms have "deref h' a = deref h a \<or> deref h' a = finalized (deref h a)"
    by (auto simp: changes_def)
  then show ?thesis
    using True changes_valid[OF assms, of a] by (auto simp: kids_def finalized_def)
next
  case False
  then show ?thesis using changes_valid[OF assms, of a] by (simp add: kids_def)
qed

lemma changes_forest:
  assumes c: "changes h h' A" and f: "forest h"
  shows "forest h'"
  unfolding forest_def
proof (intro conjI allI ballI impI)
  fix a k assume "k \<in> kids h' a"
  then have k: "k \<in> kids h a" using changes_kids[OF c] by blast
  show "a < k" using forest_lt[OF f k] .
  show "valid h' k" using forest_valid[OF f k] changes_valid[OF c] by simp
next
  fix a b k assume "k \<in> kids h' a" "k \<in> kids h' b"
  then have "k \<in> kids h a" "k \<in> kids h b" using changes_kids[OF c] by blast+
  then show "a = b" using forest_uniq[OF f] by blast
next
  fix a assume "valid h' a"
  then have v: "valid h a" using changes_valid[OF c] by simp
  with c have "deref h' a = deref h a \<or> deref h' a = finalized (deref h a)"
    by (auto simp: changes_def)
  then show "distinct (map snd (children (deref h' a)))"
    using forest_distinct[OF f v] by (auto simp: finalized_def)
qed

lemma exit_changes:
  "changes (fst hw) (fst (snd (exit held ctx ec s hw))) (desc (fst hw) s - held)"
  "changes (fst hw) (fst (snd (exit_children held ctx ec eles hw)))
     ((\<Union>e \<in> set eles. desc (fst hw) (snd e)) - held)"
proof (induct held ctx ec s hw and held ctx ec eles hw rule: exit_exit_children.induct)
  case (1 held ctx ec s h w)
  show ?case
  proof (cases "valid h s \<and> s \<notin> held")
    case False
    then show ?thesis by auto
  next
    case True
    then have v: "valid h s" and nh: "s \<notin> held" by simp_all
    have fin: "\<And>h1. changes h h1 ((\<Union>e \<in> set (rev (children (deref h s))). desc h (snd e)) - insert s held)
            \<Longrightarrow> changes h (finalize s h1) (desc h s - held)"
    proof -
      fix h1
      assume c1: "changes h h1 ((\<Union>e \<in> set (rev (children (deref h s))). desc h (snd e)) - insert s held)"
      have v1: "valid h1 s" using changes_valid[OF c1] v by simp
      have "changes h (finalize s h1)
              (((\<Union>e \<in> set (rev (children (deref h s))). desc h (snd e)) - insert s held) \<union> {s})"
        using changes_trans[OF c1 changes_finalize[OF v1]] .
      moreover have "(\<Union>e \<in> set (rev (children (deref h s))). desc h (snd e)) \<subseteq> desc h s"
        using v desc_kid_subset[of _ h s] by (fastforce simp: kids_def)
      ultimately show "changes h (finalize s h1) (desc h s - held)"
        using nh by (elim changes_weaken) auto
    qed
    show ?thesis
    proof (cases "state (deref h s) = Active")
      case False
      with v nh show ?thesis
        using changes_weaken[OF changes_finalize[OF v], of "desc h s - held"] by simp
    next
      case A: True
      obtain o1 h1 w1 where
        c: "exit_children (insert s held) ctx ec (rev (children (deref h s))) (h, w) = (o1, h1, w1)"
        by (metis prod_cases3)
      have c1: "changes h h1 ((\<Union>e \<in> set (rev (children (deref h s))). desc h (snd e)) - insert s held)"
        using 1[OF _ nh] v A c by simp
      have d: "changes h h1 (desc h s - held)"
        using c1 v desc_kid_subset[of _ h s]
        by (elim changes_weaken) (fastforce simp: kids_def)
      from v nh A c fin[OF c1] d show ?thesis
        by (auto split: outcome.splits option.splits prod.splits)
    qed
  qed
next
  case (2 held ctx ec h w)
  show ?case by simp
next
  case (3 held ctx ec ele eles h w)
  obtain o1 h1 w1 where e: "exit held ctx ec (snd ele) (h, w) = (o1, h1, w1)"
    by (metis prod_cases3)
  have c1: "changes h h1 (desc h (snd ele) - held)" using 3(1) e by simp
  have big: "changes h h1 ((\<Union>e \<in> set (ele # eles). desc h (snd e)) - held)"
    using c1 by (elim changes_weaken) auto
  show ?case
  proof (cases o1)
    case (Returned err)
    let ?w2 = "report ctx ec err w1"
    show ?thesis
    proof (cases "ctx ?w2")
      case None
      have c2: "changes h1 (fst (snd (exit_children held ctx ec eles (h1, ?w2))))
                  ((\<Union>e \<in> set eles. desc h1 (snd e)) - held)"
        using 3(2)[OF e[symmetric] Returned refl refl None] by simp
      have "(\<Union>e \<in> set eles. desc h1 (snd e)) \<subseteq> (\<Union>e \<in> set eles. desc h (snd e))"
        using desc_mono[of h1 h, OF changes_kids[OF c1]] by blast
      then have "changes h (fst (snd (exit_children held ctx ec eles (h1, ?w2))))
                  ((\<Union>e \<in> set (ele # eles). desc h (snd e)) - held)"
        using changes_trans[OF c1 c2] by (elim changes_weaken) auto
      with e Returned None show ?thesis by simp
    next
      case (Some ce)
      with e Returned big show ?thesis by simp
    qed
  next
    case Panicked
    with e big show ?thesis by simp
  next
    case Deadlock
    with e big show ?thesis by simp
  qed
qed


section \<open>The order of teardown depends on the subtree only\<close>

lemma desc_valid:
  assumes "forest h" and "valid h s" and "x \<in> desc h s"
  shows "valid h x"
  using assms(3)
proof (induction rule: desc_induct)
  case base
  show ?case using assms(2) .
next
  case (step y k)
  show ?case using forest_valid[OF assms(1) step.hyps(2)] .
qed

lemma teardown_order_cong:
  "length (scopes h1) = length (scopes h) \<Longrightarrow>
   (\<And>a. a \<in> desc h s \<Longrightarrow> deref h1 a = deref h a) \<Longrightarrow>
     teardown_order held h1 s = teardown_order held h s"
proof (induction held h s rule: teardown_order.induct)
  case (1 held h s)
  have v: "valid h1 s = valid h s" using "1.prems"(1) by (simp add: valid_def)
  have s: "deref h1 s = deref h s" using "1.prems"(2) by simp
  show ?case
  proof (cases "\<not> valid h s \<or> s \<in> held \<or> state (deref h s) \<noteq> Active")
    case True
    then show ?thesis
      using v s teardown_order.simps[of held h s] teardown_order.simps[of held h1 s] by auto
  next
    case False
    have "teardown_order (insert s held) h1 (snd ele) = teardown_order (insert s held) h (snd ele)"
      if "ele \<in> set (rev (children (deref h s)))" for ele
    proof (rule "1.IH"[OF False that "1.prems"(1)])
      fix a assume a: "a \<in> desc h (snd ele)"
      have "snd ele \<in> kids h s" using that False by (auto simp: kids_def)
      then have "a \<in> desc h s" using a desc_kid_subset by blast
      then show "deref h1 a = deref h a" by (rule "1.prems"(2))
    qed
    then have m: "map (\<lambda>ele. teardown_order (insert s held) h1 (snd ele)) (rev (children (deref h s)))
             = map (\<lambda>ele. teardown_order (insert s held) h (snd ele)) (rev (children (deref h s)))"
      by (intro map_cong refl) simp
    have "teardown_order held h1 s =
            concat (map (\<lambda>ele. teardown_order (insert s held) h1 (snd ele))
                     (rev (children (deref h s)))) @ rev (reapers (deref h s))"
      using False v s teardown_order.simps[of held h1 s] by simp
    also have "\<dots> = teardown_order held h s"
      unfolding m using False teardown_order.simps[of held h s] by simp
    finally show ?thesis .
  qed
qed

section \<open>Walks\<close>

lemma unexpired_between_short [simp]: "length Q \<le> 1 \<Longrightarrow> unexpired_between ctx ec Q w"
  by (auto simp: unexpired_between_def)

lemma unexpired_between_append:
  assumes 1: "unexpired_between ctx ec Q1 w"
    and 2: "unexpired_between ctx ec Q2 (fold (reap_step ctx ec) Q1 w)"
    and j: "Q1 \<noteq> [] \<Longrightarrow> Q2 \<noteq> [] \<Longrightarrow> ctx (fold (reap_step ctx ec) Q1 w) = None"
  shows "unexpired_between ctx ec (Q1 @ Q2) w"
  unfolding unexpired_between_def
proof (intro allI impI)
  fix k assume k: "0 < k \<and> k < length (Q1 @ Q2)"
  consider "k < length Q1" | "k = length Q1" | "length Q1 < k" by linarith
  then show "ctx (fold (reap_step ctx ec) (take k (Q1 @ Q2)) w) = None"
  proof cases
    case 1
    with k assms(1) show ?thesis by (simp add: unexpired_between_def)
  next
    case 2
    with k have "Q1 \<noteq> []" "Q2 \<noteq> []" by auto
    with j 2 show ?thesis by simp
  next
    case 3
    with k 2 show ?thesis by (simp add: unexpired_between_def)
  qed
qed

lemma ran_Nil: "out \<noteq> Panicked \<Longrightarrow> (\<And>e. out = Returned (Some e) \<Longrightarrow> ctx w = Some e) \<Longrightarrow>
    ran ctx ec [] w out w"
  unfolding ran_def by (intro exI[of _ "[]"]) simp

lemma ran_append1:
  assumes "ran ctx ec P1 w out w'" and "out \<noteq> Returned None"
  shows "ran ctx ec (P1 @ P2) w out w'"
proof -
  from assms(1) obtain Q where Q: "prefix (map Some Q) P1" "w' = fold (reap_step ctx ec) Q w"
    "unexpired_between ctx ec Q w"
    "\<forall>e. out = Returned (Some e) \<longrightarrow> ctx w' = Some e"
    "out = Panicked \<longrightarrow> prefix (map Some Q @ [None]) P1"
    unfolding ran_def by blast
  show ?thesis unfolding ran_def
    by (rule exI[of _ Q]) (use Q assms(2) in \<open>auto intro: prefix_prefix\<close>)
qed

lemma ran_append2:
  assumes "ran ctx ec P1 w (Returned None) w1" and "ran ctx ec P2 w1 out w'"
    and j: "ctx w1 = None \<or> P1 = [] \<or> P2 = []"
  shows "ran ctx ec (P1 @ P2) w out w'"
proof -
  from assms(1) obtain Q1 where Q1: "map Some Q1 = P1" "w1 = fold (reap_step ctx ec) Q1 w"
    "unexpired_between ctx ec Q1 w" "Q1 \<noteq> [] \<longrightarrow> ctx w1 = None"
    unfolding ran_def by blast
  from assms(2) obtain Q2 where Q2: "prefix (map Some Q2) P2" "w' = fold (reap_step ctx ec) Q2 w1"
    "unexpired_between ctx ec Q2 w1"
    "out = Returned None \<longrightarrow> map Some Q2 = P2 \<and> (Q2 \<noteq> [] \<longrightarrow> ctx w' = None)"
    "\<forall>e. out = Returned (Some e) \<longrightarrow> ctx w' = Some e"
    "out = Panicked \<longrightarrow> prefix (map Some Q2 @ [None]) P2"
    unfolding ran_def by blast
  have u: "unexpired_between ctx ec (Q1 @ Q2) w"
    by (rule unexpired_between_append) (use Q1 Q2 in auto)
  have last: "out = Returned None \<Longrightarrow> Q1 @ Q2 \<noteq> [] \<Longrightarrow> ctx w' = None"
    using Q1 Q2 by (cases "Q2 = []") auto
  show ?thesis unfolding ran_def
    by (rule exI[of _ "Q1 @ Q2"]) (use Q1 Q2 u last in \<open>auto simp: Q1(1)[symmetric]\<close>)
qed

lemma ran_cancel:
  assumes "ran ctx ec P1 w (Returned err) w1" and "ctx w1 = Some ce"
  shows "ran ctx ec (P1 @ P2) w (Returned (Some ce)) w1"
proof -
  from assms(1) obtain Q where Q: "prefix (map Some Q) P1" "w1 = fold (reap_step ctx ec) Q w"
    "unexpired_between ctx ec Q w"
    unfolding ran_def by blast
  show ?thesis unfolding ran_def
    by (rule exI[of _ Q]) (use Q assms(2) in \<open>auto intro: prefix_prefix\<close>)
qed

lemma ran_ctx: "ran ctx ec P w (Returned (Some e)) w' \<Longrightarrow> ctx w' = Some e"
  unfolding ran_def by blast

lemma ran_step:
  assumes "ctx (reap_step ctx ec f w) = None" and "ran ctx ec rs (reap_step ctx ec f w) out w'"
  shows "ran ctx ec (Some f # rs) w out w'"
proof -
  have "ran ctx ec [Some f] w (Returned None) (reap_step ctx ec f w)"
    unfolding ran_def by (rule exI[of _ "[f]"]) (use assms(1) in simp)
  from ran_append2[OF this assms(2)] assms(1) show ?thesis by simp
qed

lemma ran_run_reapers:
  "run_reapers ctx ec rs w = (out, w') \<Longrightarrow> ran ctx ec rs w out w'"
proof (induction rs arbitrary: w)
  case Nil
  then show ?case by (auto intro: ran_Nil)
next
  case (Cons r rs)
  show ?case
  proof (cases r)
    case None
    with Cons.prems have "out = Panicked" "w' = w" by auto
    then show ?thesis unfolding ran_def None by (intro exI[of _ "[]"]) simp
  next
    case (Some f)
    obtain err w1 where f: "f ctx w = (err, w1)" by (cases "f ctx w")
    let ?w2 = "report ctx ec err w1"
    have w2: "?w2 = reap_step ctx ec f w" by (simp add: reap_step_def report_def f)
    show ?thesis
    proof (cases "ctx ?w2")
      case None
      with Cons.prems Some f have "run_reapers ctx ec rs ?w2 = (out, w')" by simp
      from Cons.IH[OF this] have "ran ctx ec rs (reap_step ctx ec f w) out w'" by (simp add: w2)
      with None show ?thesis unfolding Some w2 by (intro ran_step)
    next
      case (Some e)
      with Cons.prems \<open>r = Some f\<close> f have "out = Returned (Some e)" "w' = ?w2" by auto
      then show ?thesis unfolding ran_def
        by (intro exI[of _ "[f]"]) (use Some \<open>r = Some f\<close> w2 in auto)
    qed
  qed
qed

lemma run_reapers_no_deadlock: "run_reapers ctx ec rs w = (out, w') \<Longrightarrow> out \<noteq> Deadlock"
proof (induction rs arbitrary: w)
  case Nil
  then show ?case by auto
next
  case (Cons r rs)
  then show ?case
    by (cases r) (auto simp: Let_def split: prod.splits option.splits)
qed

section \<open>\<open>exit\<close> walks the order of teardown\<close>

lemma exit_held_same:
  assumes "exit held ctx ec s (h, w) = (out, h', w')" and "valid h a" and "a \<in> held"
  shows "deref h' a = deref h a"
  using exit_changes(1)[of "(h, w)" held ctx ec s] assms
  by (auto dest!: changes_outside[where a = a])

lemma exit_children_held_same:
  assumes "exit_children held ctx ec eles (h, w) = (out, h', w')" and "valid h a" and "a \<in> held"
  shows "deref h' a = deref h a"
  using exit_changes(2)[of "(h, w)" held ctx ec eles] assms
  by (auto dest!: changes_outside[where a = a])

lemma exit_ran:
  "forest (fst hw) \<Longrightarrow> valid (fst hw) s \<Longrightarrow>
     ran ctx ec (teardown_order held (fst hw) s) (snd hw)
       (fst (exit held ctx ec s hw)) (snd (snd (exit held ctx ec s hw)))"
  "forest (fst hw) \<Longrightarrow> valid (fst hw) p \<Longrightarrow> p \<in> held \<Longrightarrow>
   set eles \<subseteq> set (children (deref (fst hw) p)) \<Longrightarrow> distinct (map snd eles) \<Longrightarrow>
     ran ctx ec (concat (map (\<lambda>ele. teardown_order held (fst hw) (snd ele)) eles)) (snd hw)
       (fst (exit_children held ctx ec eles hw)) (snd (snd (exit_children held ctx ec eles hw)))"
proof (induct held ctx ec s hw and held ctx ec eles hw arbitrary: and p
       rule: exit_exit_children.induct)
  case (1 held ctx ec s h w)
  then have f: "forest h" and v: "valid h s" by simp_all
  show ?case
  proof (cases "s \<in> held \<or> state (deref h s) \<noteq> Active")
    case True
    then have "teardown_order held h s = []" using teardown_order.simps[of held h s] by simp
    with True v show ?thesis by (auto intro: ran_Nil)
  next
    case False
    then have nh: "s \<notin> held" and A: "state (deref h s) = Active" by simp_all
    let ?eles = "rev (children (deref h s))"
    let ?Pc = "concat (map (\<lambda>ele. teardown_order (insert s held) h (snd ele)) ?eles)"
    have P: "teardown_order held h s = ?Pc @ rev (reapers (deref h s))"
      using teardown_order.simps[of held h s] v nh A by simp
    obtain o1 h1 w1 where
      c: "exit_children (insert s held) ctx ec ?eles (h, w) = (o1, h1, w1)"
      by (metis prod_cases3)
    have "ran ctx ec ?Pc (snd (h, w))
            (fst (exit_children (insert s held) ctx ec ?eles (h, w)))
            (snd (snd (exit_children (insert s held) ctx ec ?eles (h, w))))"
      using 1(1)[of s] v nh A f forest_distinct[OF f v] by (simp add: rev_map[symmetric])
    then have rc: "ran ctx ec ?Pc w o1 w1" using c by simp
    show ?thesis
    proof (cases "o1 = Returned None")
      case True
      obtain out w2 where r: "run_reapers ctx ec (rev (reapers (deref h1 s))) w1 = (out, w2)"
        by (cases "run_reapers ctx ec (rev (reapers (deref h1 s))) w1")
      have same: "deref h1 s = deref h s"
        using exit_children_held_same[OF c v] by simp
      have rr: "ran ctx ec (rev (reapers (deref h s))) w1 out w2"
        using ran_run_reapers[OF r] same by simp
      have rc': "ran ctx ec ?Pc w (Returned None) w1" using rc True by simp
      have "ctx w1 = None \<or> ?Pc = [] \<or> rev (reapers (deref h s)) = []"
        using rc' unfolding ran_def by fastforce
      then have "ran ctx ec (?Pc @ rev (reapers (deref h s))) w out w2"
        using ran_append2[OF rc' rr] by blast
      moreover have "exit held ctx ec s (h, w) = (out, finalize s h1, w2)"
        using v nh A c True r by simp
      ultimately show ?thesis using P by simp
    next
      case False
      then have e: "exit held ctx ec s (h, w) = (o1, (if o1 = Deadlock then h1 else finalize s h1), w1)"
        using v nh A c by (auto split: outcome.splits option.splits)
      have "ran ctx ec (?Pc @ rev (reapers (deref h s))) w o1 w1"
        using ran_append1[OF rc False] .
      with e P show ?thesis by simp
    qed
  qed
next
  case (2 held ctx ec h w)
  have "ran ctx ec [] w (Returned None) w" by (rule ran_Nil) simp_all
  then show ?case by simp
next
  case (3 held ctx ec ele eles h w)
  then have f: "forest h" and vp: "valid h p" and ph: "p \<in> held"
    and sub: "set (ele # eles) \<subseteq> set (children (deref h p))"
    and dist: "distinct (map snd (ele # eles))" by simp_all
  let ?c = "snd ele"
  let ?rest = "\<lambda>h. concat (map (\<lambda>ele. teardown_order held h (snd ele)) eles)"
  have ck: "?c \<in> kids h p" using sub vp by (auto simp: kids_def)
  have vc: "valid h ?c" using forest_valid[OF f ck] .
  obtain o1 h1 w1 where e: "exit held ctx ec ?c (h, w) = (o1, h1, w1)"
    by (metis prod_cases3)
  have r1: "ran ctx ec (teardown_order held h ?c) w o1 w1"
    using 3(1) f vc e by simp
  have ch: "changes h h1 (desc h ?c - held)"
    using exit_changes(1)[of "(h, w)" held ctx ec ?c] e by simp
  show ?case
  proof (cases o1)
    case (Returned err)
    have w2: "report ctx ec err w1 = w1"
    proof (cases err)
      case None
      then show ?thesis by (simp add: report_def)
    next
      case (Some x)
      have "ctx w1 = Some x" using r1 unfolding Returned Some by (rule ran_ctx)
      with Some show ?thesis by (simp add: report_def)
    qed
    show ?thesis
    proof (cases "ctx w1")
      case (Some ce)
      have "exit_children held ctx ec (ele # eles) (h, w) = (Returned (Some ce), h1, w1)"
        using e Returned w2 Some by simp
      moreover have "ran ctx ec (teardown_order held h ?c @ ?rest h) w (Returned (Some ce)) w1"
        using ran_cancel[OF r1[unfolded Returned] Some] .
      ultimately show ?thesis by simp
    next
      case None
      have errN: "err = None"
      proof (cases err)
        case None
        then show ?thesis .
      next
        case (Some x)
        have "ctx w1 = Some x" using r1 unfolding Returned Some by (rule ran_ctx)
        with None show ?thesis by simp
      qed
      have f1: "forest h1" using changes_forest[OF ch f] .
      have vp1: "valid h1 p" using changes_valid[OF ch] vp by simp
      have same: "deref h1 p = deref h p"
        using exit_held_same[OF e vp ph] .
      have "ran ctx ec (?rest h1) (snd (h1, w1))
              (fst (exit_children held ctx ec eles (h1, w1)))
              (snd (snd (exit_children held ctx ec eles (h1, w1))))"
        using 3(2)[OF e[symmetric] Returned refl, of w1 p] w2 None f1 vp1 ph sub dist same
        by simp
      moreover have "?rest h1 = ?rest h"
      proof -
        have "teardown_order held h1 (snd x) = teardown_order held h (snd x)"
          if x: "x \<in> set eles" for x
        proof (rule teardown_order_cong)
          show "length (scopes h1) = length (scopes h)" using ch by (simp add: changes_def)
        next
          fix a assume a: "a \<in> desc h (snd x)"
          have xk: "snd x \<in> kids h p" using sub vp x by (auto simp: kids_def)
          have ne: "?c \<noteq> snd x" using dist x by auto
          have "desc h ?c \<inter> desc h (snd x) = {}"
            using siblings_disjoint[OF f ck xk ne] .
          then have "a \<notin> desc h ?c - held" using a by blast
          moreover have "valid h a" using desc_valid[OF f forest_valid[OF f xk] a] .
          ultimately show "deref h1 a = deref h a" using changes_outside[OF ch] by blast
        qed
        then have m: "map (\<lambda>ele. teardown_order held h1 (snd ele)) eles
                 = map (\<lambda>ele. teardown_order held h (snd ele)) eles"
          by (intro map_cong refl) simp
        show ?thesis unfolding m ..
      qed
      ultimately have r2: "ran ctx ec (?rest h) w1
              (fst (exit_children held ctx ec eles (h1, w1)))
              (snd (snd (exit_children held ctx ec eles (h1, w1))))" by simp
      have r1': "ran ctx ec (teardown_order held h ?c) w (Returned None) w1"
        using r1 Returned errN by simp
      have "exit_children held ctx ec (ele # eles) (h, w) = exit_children held ctx ec eles (h1, w1)"
        using e Returned w2 None by simp
      with ran_append2[OF r1' r2] None show ?thesis by simp
    qed
  next
    case Panicked
    have "exit_children held ctx ec (ele # eles) (h, w) = (Panicked, h1, w1)"
      using e Panicked by simp
    moreover have "ran ctx ec (teardown_order held h ?c @ ?rest h) w Panicked w1"
      using ran_append1[of ctx ec _ w o1 w1] r1 Panicked by simp
    ultimately show ?thesis by simp
  next
    case Deadlock
    have "exit_children held ctx ec (ele # eles) (h, w) = (Deadlock, h1, w1)"
      using e Deadlock by simp
    moreover have "ran ctx ec (teardown_order held h ?c @ ?rest h) w Deadlock w1"
      using ran_append1[of ctx ec _ w o1 w1] r1 Deadlock by simp
    ultimately show ?thesis by simp
  qed
qed

lemma exit_no_deadlock:
  "forest (fst hw) \<Longrightarrow> (\<forall>x \<in> held. x < s) \<Longrightarrow> fst (exit held ctx ec s hw) \<noteq> Deadlock"
  "forest (fst hw) \<Longrightarrow> (\<forall>x \<in> held. \<forall>e \<in> set eles. x < snd e) \<Longrightarrow>
     fst (exit_children held ctx ec eles hw) \<noteq> Deadlock"
proof (induct held ctx ec s hw and held ctx ec eles hw rule: exit_exit_children.induct)
  case (1 held ctx ec s h w)
  then have f: "forest h" and lt: "\<forall>x \<in> held. x < s" by simp_all
  show ?case
  proof (cases "valid h s \<and> state (deref h s) = Active")
    case False
    with lt show ?thesis by auto
  next
    case True
    then have v: "valid h s" and A: "state (deref h s) = Active" by simp_all
    have nh: "s \<notin> held" using lt by auto
    have "\<forall>e \<in> set (children (deref h s)). s < snd e"
      using forest_lt[OF f, of _ s] v by (auto simp: kids_def)
    with lt have "\<forall>x \<in> insert s held. \<forall>e \<in> set (rev (children (deref h s))). x < snd e"
      by fastforce
    with 1(1) v nh A f
    have "fst (exit_children (insert s held) ctx ec (rev (children (deref h s))) (h, w)) \<noteq> Deadlock"
      by simp
    then show ?thesis using v nh A
      by (auto split: prod.splits outcome.splits option.splits dest: run_reapers_no_deadlock)
  qed
next
  case (2 held ctx ec h w)
  show ?case by simp
next
  case (3 held ctx ec ele eles h w)
  then have f: "forest h" and lt: "\<forall>x \<in> held. \<forall>e \<in> set (ele # eles). x < snd e" by simp_all
  obtain o1 h1 w1 where e: "exit held ctx ec (snd ele) (h, w) = (o1, h1, w1)"
    by (metis prod_cases3)
  have nd: "o1 \<noteq> Deadlock" using 3(1) f lt e by simp
  have ch: "changes h h1 (desc h (snd ele) - held)"
    using exit_changes(1)[of "(h, w)" held ctx ec "snd ele"] e by simp
  have f1: "forest h1" using changes_forest[OF ch f] .
  show ?case
  proof (cases o1)
    case (Returned err)
    show ?thesis
    proof (cases "ctx (report ctx ec err w1)")
      case None
      have "fst (exit_children held ctx ec eles (h1, report ctx ec err w1)) \<noteq> Deadlock"
        using 3(2)[OF e[symmetric] Returned refl refl None] f1 lt by simp
      with e Returned None show ?thesis by simp
    next
      case (Some ce)
      with e Returned show ?thesis by simp
    qed
  next
    case Panicked
    with e show ?thesis by simp
  next
    case Deadlock
    with nd show ?thesis by simp
  qed
qed


lemma exit_returns_ctx_error:
  "fst (exit held ctx ec s hw) = Returned (Some e) \<Longrightarrow>
     ctx (snd (snd (exit held ctx ec s hw))) = Some e"
  "fst (exit_children held ctx ec eles hw) = Returned (Some e) \<Longrightarrow>
     ctx (snd (snd (exit_children held ctx ec eles hw))) = Some e"
proof (induct held ctx ec s hw and held ctx ec eles hw rule: exit_exit_children.induct)
  case (1 held ctx ec s h w)
  show ?case
  proof (cases "valid h s \<and> s \<notin> held \<and> state (deref h s) = Active")
    case False
    with 1(2) show ?thesis by (auto split: if_splits)
  next
    case True
    obtain o1 h1 w1 where
      c: "exit_children (insert s held) ctx ec (rev (children (deref h s))) (h, w) = (o1, h1, w1)"
      by (metis prod_cases3)
    show ?thesis
    proof (cases "o1 = Returned None")
      case R: True
      obtain out w2 where r: "run_reapers ctx ec (rev (reapers (deref h1 s))) w1 = (out, w2)"
        by (cases "run_reapers ctx ec (rev (reapers (deref h1 s))) w1")
      have ex: "exit held ctx ec s (h, w) = (out, finalize s h1, w2)"
        using True c R r by simp
      with 1(2) have "out = Returned (Some e)" by simp
      with ran_ctx[of ctx ec _ w1 e w2] ran_run_reapers[OF r] have "ctx w2 = Some e" by simp
      with ex show ?thesis by simp
    next
      case False
      then have ex: "exit held ctx ec s (h, w) = (o1, (if o1 = Deadlock then h1 else finalize s h1), w1)"
        using True c by (auto split: outcome.splits option.splits)
      with 1(2) have "o1 = Returned (Some e)" by simp
      with 1(1) True c have "ctx w1 = Some e" by simp
      with ex show ?thesis by simp
    qed
  qed
next
  case (2 held ctx ec h w)
  then show ?case by simp
next
  case (3 held ctx ec ele eles h w)
  obtain o1 h1 w1 where e: "exit held ctx ec (snd ele) (h, w) = (o1, h1, w1)"
    by (metis prod_cases3)
  show ?case
  proof (cases o1)
    case (Returned err)
    show ?thesis
    proof (cases "ctx (report ctx ec err w1)")
      case None
      with 3(2)[OF e[symmetric] Returned refl refl None] 3(3) e Returned show ?thesis by simp
    next
      case (Some ce)
      with 3(3) e Returned show ?thesis by simp
    qed
  next
    case Panicked
    with 3(3) e show ?thesis by simp
  next
    case Deadlock
    with 3(3) e show ?thesis by simp
  qed
qed

lemma Exit_world:
  "snd (snd (Exit ctx opts s hw)) =
   snd (snd (exit {} ctx (fold apply_ExitOpt opts default_exitCfg) s hw))"
  by (auto simp: Exit_def Let_def split: prod.splits outcome.splits)

lemma Exit_Returned:
  "fst (Exit ctx opts s hw) = Returned err \<Longrightarrow>
   fst (exit {} ctx (fold apply_ExitOpt opts default_exitCfg) s hw) = Returned err"
  by (auto simp: Exit_def Let_def split: prod.splits outcome.splits)

lemma changes_detach: "changes h h' A \<Longrightarrow> valid h a \<Longrightarrow> detach (deref h' a) = detach (deref h a)"
  by (auto simp: changes_def finalized_def)

lemma Exit_outcome:
  assumes "valid h s" and "parent_valid h s"
  shows "fst (Exit ctx opts s (h, w)) =
         fst (exit {} ctx (fold apply_ExitOpt opts default_exitCfg) s (h, w))"
proof -
  let ?ec = "fold apply_ExitOpt opts default_exitCfg"
  obtain o1 h1 w1 where e: "exit {} ctx ?ec s (h, w) = (o1, h1, w1)" by (metis prod_cases3)
  have ch: "changes h h1 (desc h s - {})"
    using exit_changes(1)[of "(h, w)" "{}" ctx ?ec s] e by simp
  have d: "detach (deref h1 s) = detach (deref h s)" using changes_detach[OF ch assms(1)] .
  have "fst (run_detach (detach (deref h1 s)) h1) = Returned ()"
    using assms(2) changes_valid[OF ch] unfolding d parent_valid_def
    by (cases "detach (deref h s)") auto
  with e show ?thesis
    by (auto simp: Exit_def Let_def split: prod.splits outcome.splits)
qed

section \<open>The operations keep the store a forest\<close>

lemma kids_assign:
  "valid h s \<Longrightarrow> kids (assign s sc h) a = (if a = s then snd ` set (children sc) else kids h a)"
  by (simp add: kids_def deref_assign)

lemma forest_empty_store: "forest empty_store"
  by (simp add: forest_def kids_def valid_def empty_store_def)

lemma valid_NewScope: "valid (snd (NewScope opts h)) a = (a \<le> length (scopes h))"
  by (auto simp: NewScope_def Let_def valid_def)

lemma fst_NewScope: "fst (NewScope opts h) = length (scopes h)"
  by (simp add: NewScope_def Let_def)

lemma deref_NewScope_old: "valid h a \<Longrightarrow> deref (snd (NewScope opts h)) a = deref h a"
  by (simp add: NewScope_def Let_def valid_def deref_def nth_append)

lemma deref_NewScope_new:
  "deref (snd (NewScope opts h)) (length (scopes h)) =
     fold apply_ScopeOpt opts \<lparr>state = Active, children = [], reapers = [],
        errors = next_chan h, detach = NoDetach\<rparr>"
  by (simp add: NewScope_def Let_def deref_def)

lemma kids_NewScope: "kids (snd (NewScope opts h)) a = kids h a"
proof (cases "valid h a")
  case True
  then have "a \<le> length (scopes h)" by (simp add: valid_def)
  with True show ?thesis by (simp add: kids_def valid_NewScope deref_NewScope_old)
next
  case False
  show ?thesis
  proof (cases "a = length (scopes h)")
    case True
    with False show ?thesis by (simp add: kids_def valid_NewScope deref_NewScope_new)
  next
    case F: False
    with False have "\<not> a \<le> length (scopes h)" by (simp add: valid_def)
    with False show ?thesis by (simp add: kids_def valid_NewScope)
  qed
qed

lemma forest_kids_cong:
  assumes "forest h" and "\<And>a. kids h' a \<subseteq> kids h a" and "\<And>a. valid h a \<Longrightarrow> valid h' a"
    and "\<And>a. valid h' a \<Longrightarrow> distinct (map snd (children (deref h' a)))"
  shows "forest h'"
  unfolding forest_def
proof (intro conjI allI ballI impI)
  fix a k assume "k \<in> kids h' a"
  then have k: "k \<in> kids h a" using assms(2) by blast
  show "a < k" using forest_lt[OF assms(1) k] .
  show "valid h' k" using forest_valid[OF assms(1) k] assms(3) by simp
next
  fix a b k assume "k \<in> kids h' a" "k \<in> kids h' b"
  then have "k \<in> kids h a" "k \<in> kids h b" using assms(2) by blast+
  then show "a = b" using forest_uniq[OF assms(1)] by blast
next
  fix a assume "valid h' a"
  then show "distinct (map snd (children (deref h' a)))" by (rule assms(4))
qed

lemma forest_NewScope:
  assumes "forest h"
  shows "forest (snd (NewScope opts h))"
proof (rule forest_kids_cong[OF assms])
  fix a
  show "kids (snd (NewScope opts h)) a \<subseteq> kids h a" by (simp add: kids_NewScope)
  show "valid h a \<Longrightarrow> valid (snd (NewScope opts h)) a"
    unfolding valid_NewScope by (simp add: valid_def)
  show "distinct (map snd (children (deref (snd (NewScope opts h)) a)))"
    if "valid (snd (NewScope opts h)) a"
  proof (cases "a = length (scopes h)")
    case True
    then show ?thesis by (simp add: deref_NewScope_new)
  next
    case False
    with that have v: "valid h a" unfolding valid_NewScope by (simp add: valid_def)
    then show ?thesis using forest_distinct[OF assms v] by (simp add: deref_NewScope_old)
  qed
qed

lemma forest_Spawn:
  assumes "forest h"
  shows "forest (fst (snd (Spawn ctx sp s (h, w))))"
proof (cases "valid h s")
  case False
  then show ?thesis using assms by (simp add: Spawn_def)
next
  case True
  show ?thesis
  proof (cases "state (deref h s) = Active \<and> snd (fst (sp ctx w)) = None")
    case False
    then show ?thesis using assms True by (auto simp: Spawn_def split: prod.splits)
  next
    case A: True
    let ?h' = "assign s ((deref h s)\<lparr>reapers := reapers (deref h s) @ [fst (fst (sp ctx w))]\<rparr>) h"
    have "forest ?h'"
    proof (rule forest_kids_cong[OF assms])
      fix a
      show "kids ?h' a \<subseteq> kids h a"
        unfolding kids_assign[OF True] using True by (auto simp: kids_def)
      show "valid h a \<Longrightarrow> valid ?h' a" by simp
      show "valid ?h' a \<Longrightarrow> distinct (map snd (children (deref ?h' a)))"
        using forest_distinct[OF assms, of a] True by (auto simp: deref_assign)
    qed
    then show ?thesis using True A by (auto simp: Spawn_def split: prod.splits)
  qed
qed

lemma forest_run_detach:
  assumes "forest h"
  shows "forest (snd (run_detach d h))"
proof (cases d)
  case NoDetach
  then show ?thesis using assms by simp
next
  case (RemoveFrom p e)
  show ?thesis
  proof (cases "valid h p")
    case False
    then show ?thesis using assms RemoveFrom by simp
  next
    case True
    let ?h' = "assign p ((deref h p)\<lparr>children := filter (\<lambda>x. fst x \<noteq> e) (children (deref h p))\<rparr>) h"
    have "forest ?h'"
    proof (rule forest_kids_cong[OF assms])
      fix a
      show "kids ?h' a \<subseteq> kids h a"
        unfolding kids_assign[OF True] using True by (auto simp: kids_def)
      show "valid h a \<Longrightarrow> valid ?h' a" by simp
      show "valid ?h' a \<Longrightarrow> distinct (map snd (children (deref ?h' a)))"
        using forest_distinct[OF assms, of a] True by (auto simp: deref_assign distinct_map_filter)
    qed
    then show ?thesis using True RemoveFrom by simp
  qed
qed

lemma forest_Exit:
  assumes "forest h"
  shows "forest (fst (snd (Exit ctx opts s (h, w))))"
proof -
  let ?ec = "fold apply_ExitOpt opts default_exitCfg"
  obtain o1 h1 w1 where e: "exit {} ctx ?ec s (h, w) = (o1, h1, w1)" by (metis prod_cases3)
  have "changes h h1 (desc h s - {})"
    using exit_changes(1)[of "(h, w)" "{}" ctx ?ec s] e by simp
  then have f1: "forest h1" using changes_forest assms by blast
  have "fst (snd (Exit ctx opts s (h, w))) = h1 \<or>
        fst (snd (Exit ctx opts s (h, w))) = snd (run_detach (detach (deref h1 s)) h1)"
    using e by (auto simp: Exit_def Let_def split: prod.splits outcome.splits)
  then show ?thesis using f1 forest_run_detach[OF f1] by auto
qed

lemma forest_NewChildScope:
  assumes "forest h"
  shows "forest (snd (NewChildScope s opts h))"
proof (cases "valid h s \<and> state (deref h s) = Active")
  case False
  then show ?thesis using assms by (auto simp: NewChildScope_def)
next
  case True
  then have v: "valid h s" by simp
  define c where "c = length (scopes h)"
  define h3 where "h3 = snd (NewChildScope s opts h)"
  have sc: "s < c" using v by (simp add: valid_def c_def)
  have vs: "\<And>a. valid h3 a = (a \<le> c)"
    using True
    by (auto simp: h3_def c_def NewChildScope_def Let_def split_beta valid_def assign_def
        NewScope_def)
  have d3: "\<And>a. a < c \<Longrightarrow> a \<noteq> s \<Longrightarrow> children (deref h3 a) = children (deref h a)"
    using True
    by (simp add: h3_def c_def NewChildScope_def Let_def split_beta valid_def deref_def
        assign_def NewScope_def nth_append)
  have d3s: "\<exists>ele. children (deref h3 s) = children (deref h s) @ [(ele, c)]"
    using True
    by (simp add: h3_def c_def NewChildScope_def Let_def split_beta valid_def deref_def
        assign_def NewScope_def nth_append)
  have d3c: "children (deref h3 c) = []"
    using True
    by (simp add: h3_def c_def NewChildScope_def Let_def split_beta valid_def deref_def
        assign_def NewScope_def nth_append)
  have k: "kids h3 a = (if a = s then insert c (kids h s) else kids h a)" for a
  proof -
    consider "a = s" | "a < c" "a \<noteq> s" | "a = c" | "c < a" by linarith
    then show ?thesis
    proof cases
      case 1
      then show ?thesis using sc d3s v by (auto simp: kids_def vs)
    next
      case 2
      then have "valid h3 a" "valid h a" unfolding vs by (simp_all add: valid_def c_def)
      then show ?thesis using 2 d3[of a] by (simp add: kids_def)
    next
      case 3
      then have "valid h3 a" "\<not> valid h a" unfolding vs by (simp_all add: valid_def c_def)
      then show ?thesis using 3 d3c sc by (simp add: kids_def)
    next
      case 4
      then have "\<not> valid h3 a" "\<not> valid h a" unfolding vs by (simp_all add: valid_def c_def)
      then show ?thesis using 4 sc by (simp add: kids_def)
    qed
  qed
  have fresh: "\<And>a. c \<notin> kids h a"
    using forest_valid[OF assms] by (auto simp: valid_def c_def)
  have "forest h3"
    unfolding forest_def
  proof (intro conjI allI ballI impI)
    fix a x assume x: "x \<in> kids h3 a"
    show "a < x" using x sc forest_lt[OF assms, of x a] by (auto simp: k split: if_splits)
    have "x = c \<or> valid h x"
      using x forest_valid[OF assms, of x a] by (auto simp: k split: if_splits)
    then show "valid h3 x" unfolding vs by (auto simp: valid_def c_def)
  next
    fix a b x assume "x \<in> kids h3 a" "x \<in> kids h3 b"
    then show "a = b"
      using forest_uniq[OF assms, of x a b] fresh by (auto simp: k split: if_splits)
  next
    fix a assume "valid h3 a"
    then have "a \<le> c" by (simp add: vs)
    then consider "a = s" | "a < c" "a \<noteq> s" | "a = c" by linarith
    then show "distinct (map snd (children (deref h3 a)))"
    proof cases
      case 1
      have "c \<notin> snd ` set (children (deref h s))" using fresh[of s] v by (simp add: kids_def)
      then show ?thesis using 1 d3s forest_distinct[OF assms v] by auto
    next
      case 2
      then have "valid h a" by (simp add: valid_def c_def)
      then show ?thesis using 2 d3[of a] forest_distinct[OF assms, of a] by simp
    next
      case 3
      then show ?thesis using d3c by simp
    qed
  qed
  then show ?thesis by (simp add: h3_def)
qed


lemma exit_top_ran:
  assumes "forest h" and "valid h s" and "exit {} ctx ec s (h, w) = (o1, h1, w1)"
  shows "ran ctx ec (teardown_order {} h s) w o1 w1" and "o1 \<noteq> Deadlock"
  using exit_ran(1)[of "(h, w)" s ctx ec "{}"] exit_no_deadlock(1)[of "(h, w)" "{}" s ctx ec] assms
  by simp_all

lemma walk_complete:
  assumes "ran ctx ec P w o1 w'" and "o1 \<noteq> Deadlock" and "\<forall>v. ctx v = None" and "None \<notin> set P"
  shows "o1 = Returned None"
proof -
  from assms(1) obtain Q where Q: "\<forall>e. o1 = Returned (Some e) \<longrightarrow> ctx w' = Some e"
    "o1 = Panicked \<longrightarrow> prefix (map Some Q @ [None]) P"
    unfolding ran_def by blast
  have "o1 \<noteq> Panicked"
  proof
    assume "o1 = Panicked"
    with Q(2) have "prefix (map Some Q @ [None]) P" by simp
    from set_mono_prefix[OF this] have "None \<in> set P" by auto
    with assms(4) show False by simp
  qed
  moreover have "o1 \<noteq> Returned (Some x)" for x using Q(1) assms(3) by auto
  ultimately show ?thesis using assms(2) by (cases o1) auto
qed

lemma teardown_order_active:
  assumes "valid h s" and "s \<notin> held" and "state (deref h s) = Active"
  shows "teardown_order held h s =
           concat (map (\<lambda>ele. teardown_order (insert s held) h (snd ele))
                    (rev (children (deref h s)))) @ rev (reapers (deref h s))"
  using assms teardown_order.simps[of held h s] by simp

lemma Exit_Panicked:
  "fst (exit {} ctx (fold apply_ExitOpt opts default_exitCfg) s hw) = Panicked \<Longrightarrow>
   fst (Exit ctx opts s hw) = Panicked"
  by (auto simp: Exit_def Let_def split: prod.splits outcome.splits)

lemma unexpired_between_expired:
  assumes "unexpired_between ctx ec Q w" and "\<forall>v. ctx v \<noteq> None"
  shows "length Q \<le> 1"
proof (rule ccontr)
  assume "\<not> length Q \<le> 1"
  then have "0 < (1::nat) \<and> 1 < length Q" by simp
  with assms(1) have "ctx (fold (reap_step ctx ec) (take 1 Q) w) = None"
    unfolding unexpired_between_def by blast
  with assms(2) show False by blast
qed

lemma run_detach_not_deadlock: "run_detach d h = (Deadlock, h') \<Longrightarrow> False"
  by (cases d) (auto split: if_splits)

lemma Exit_returns_ctx_error:
  assumes "Exit ctx opts s (h, w) = (Returned (Some e), h', w')"
  shows "ctx w' = Some e"
proof -
  let ?ec = "fold apply_ExitOpt opts default_exitCfg"
  have "fst (exit {} ctx ?ec s (h, w)) = Returned (Some e)"
    using Exit_Returned[of ctx opts s "(h, w)" "Some e"] assms by simp
  from exit_returns_ctx_error(1)[OF this] show ?thesis
    using Exit_world[of ctx opts s "(h, w)"] assms by simp
qed

text \<open>
  A successful \<^verbatim>\<open>Spawn\<close> appends to the scope's reapers and changes nothing else;
  and every operation keeps the parents of the \<^verbatim>\<open>detach\<close> closures in the store.
\<close>

lemma Spawn_appends:
  assumes "valid h s" and "state (deref h s) = Active" and "sp ctx w = ((r, None), w1)"
  shows "\<exists>h1. Spawn ctx sp s (h, w) = (Returned None, h1, w1) \<and>
              reapers (deref h1 s) = reapers (deref h s) @ [r] \<and>
              children (deref h1 s) = children (deref h s) \<and>
              state (deref h1 s) = Active \<and>
              (\<forall>a. a \<noteq> s \<longrightarrow> deref h1 a = deref h a)"
  using assms by (simp add: Spawn_def deref_assign)

lemma parent_valid_empty_store: "\<forall>a. valid empty_store a \<longrightarrow> parent_valid empty_store a"
  by (simp add: valid_def empty_store_def)

lemma parent_valid_NewScope:
  assumes "\<forall>a. valid h a \<longrightarrow> parent_valid h a"
  shows "\<forall>a. valid (snd (NewScope opts h)) a \<longrightarrow> parent_valid (snd (NewScope opts h)) a"
proof (intro allI impI)
  fix a assume "valid (snd (NewScope opts h)) a"
  then have le: "a \<le> length (scopes h)" by (simp add: valid_NewScope)
  show "parent_valid (snd (NewScope opts h)) a"
  proof (cases "a = length (scopes h)")
    case True
    then show ?thesis by (simp add: parent_valid_def deref_NewScope_new)
  next
    case False
    with le have v: "valid h a" by (simp add: valid_def)
    with assms have "parent_valid h a" by simp
    moreover have "valid (snd (NewScope opts h)) p" if "valid h p" for p
      using that unfolding valid_NewScope by (simp add: valid_def)
    ultimately show ?thesis
      using v by (auto simp: parent_valid_def deref_NewScope_old split: detach_fn.splits)
  qed
qed

lemma parent_valid_Spawn:
  assumes "\<forall>a. valid h a \<longrightarrow> parent_valid h a"
  shows "\<forall>a. valid (fst (snd (Spawn ctx sp s (h, w)))) a \<longrightarrow>
             parent_valid (fst (snd (Spawn ctx sp s (h, w)))) a"
  using assms
  by (auto simp: Spawn_def parent_valid_def deref_assign split: prod.splits detach_fn.splits)

lemma parent_valid_changes:
  assumes "changes h h1 A" and "\<forall>a. valid h a \<longrightarrow> parent_valid h a"
  shows "\<forall>a. valid h1 a \<longrightarrow> parent_valid h1 a"
proof (intro allI impI)
  fix a assume "valid h1 a"
  then have v: "valid h a" using changes_valid[OF assms(1)] by simp
  with assms(2) have "parent_valid h a" by simp
  then show "parent_valid h1 a"
    using changes_detach[OF assms(1) v] changes_valid[OF assms(1)]
    by (simp add: parent_valid_def split: detach_fn.splits)
qed

lemma parent_valid_run_detach:
  assumes "\<forall>a. valid h a \<longrightarrow> parent_valid h a"
  shows "\<forall>a. valid (snd (run_detach d h)) a \<longrightarrow> parent_valid (snd (run_detach d h)) a"
  using assms
  by (cases d) (auto simp: parent_valid_def deref_assign split: detach_fn.splits)

lemma parent_valid_Exit:
  assumes "\<forall>a. valid h a \<longrightarrow> parent_valid h a"
  shows "\<forall>a. valid (fst (snd (Exit ctx opts s (h, w)))) a \<longrightarrow>
             parent_valid (fst (snd (Exit ctx opts s (h, w)))) a"
proof -
  let ?ec = "fold apply_ExitOpt opts default_exitCfg"
  obtain o1 h1 w1 where e: "exit {} ctx ?ec s (h, w) = (o1, h1, w1)" by (metis prod_cases3)
  have "changes h h1 (desc h s - {})"
    using exit_changes(1)[of "(h, w)" "{}" ctx ?ec s] e by simp
  then have p1: "\<forall>a. valid h1 a \<longrightarrow> parent_valid h1 a"
    using parent_valid_changes assms by blast
  have "fst (snd (Exit ctx opts s (h, w))) = h1 \<or>
        fst (snd (Exit ctx opts s (h, w))) = snd (run_detach (detach (deref h1 s)) h1)"
    using e by (auto simp: Exit_def Let_def split: prod.splits outcome.splits)
  then show ?thesis using p1 parent_valid_run_detach[OF p1] by auto
qed

lemma parent_valid_NewChildScope:
  assumes "\<forall>a. valid h a \<longrightarrow> parent_valid h a"
  shows "\<forall>a. valid (snd (NewChildScope s opts h)) a \<longrightarrow>
             parent_valid (snd (NewChildScope s opts h)) a"
proof (cases "valid h s \<and> state (deref h s) = Active")
  case False
  then show ?thesis using assms by (auto simp: NewChildScope_def)
next
  case True
  define c where "c = length (scopes h)"
  define h3 where "h3 = snd (NewChildScope s opts h)"
  have sc: "s < c" using True by (simp add: valid_def c_def)
  have vs: "\<And>a. valid h3 a = (a \<le> c)"
    using True
    by (auto simp: h3_def c_def NewChildScope_def Let_def split_beta valid_def assign_def
        NewScope_def)
  have d3: "\<And>a. a < c \<Longrightarrow> detach (deref h3 a) = detach (deref h a)"
    using True
    by (simp add: h3_def c_def NewChildScope_def Let_def split_beta valid_def deref_def
        assign_def NewScope_def nth_append nth_list_update)
  have d3c: "\<exists>e. detach (deref h3 c) = RemoveFrom s e"
    using True
    by (simp add: h3_def c_def NewChildScope_def Let_def split_beta valid_def deref_def
        assign_def NewScope_def nth_append)
  have "parent_valid h3 a" if "valid h3 a" for a
  proof (cases "a = c")
    case True
    then show ?thesis using d3c sc by (auto simp: parent_valid_def vs)
  next
    case False
    with that have lt: "a < c" by (simp add: vs)
    then have "valid h a" by (simp add: valid_def c_def)
    with assms have "parent_valid h a" by simp
    moreover have "valid h3 p" if "valid h p" for p
      using that unfolding vs by (simp add: valid_def c_def)
    ultimately show ?thesis using d3[OF lt]
      by (auto simp: parent_valid_def split: detach_fn.splits)
  qed
  then show ?thesis by (simp add: h3_def)
qed

text \<open>
  When \<open>exit\<close> returns \<^verbatim>\<open>nil\<close> after at least one step, the last thing it did was
  to find the context unexpired.
\<close>

lemma run_reapers_nil_unexpired:
  assumes "run_reapers ctx ec rs w = (Returned None, w')" and "rs \<noteq> []"
  shows "ctx w' = None"
proof -
  from ran_run_reapers[OF assms(1)] obtain Q where
    Q: "map Some Q = rs" "Q \<noteq> [] \<longrightarrow> ctx w' = None"
    unfolding ran_def by blast
  from Q(1) assms(2) have "Q \<noteq> []" by auto
  with Q(2) show ?thesis by simp
qed

lemma exit_children_nil_unexpired:
  "exit_children held ctx ec eles (h, w) = (Returned None, h', w') \<Longrightarrow> eles \<noteq> [] \<Longrightarrow>
     ctx w' = None"
proof (induction eles arbitrary: h w)
  case Nil
  then show ?case by simp
next
  case (Cons ele eles)
  obtain o1 h1 w1 where e: "exit held ctx ec (snd ele) (h, w) = (o1, h1, w1)"
    by (metis prod_cases3)
  from Cons.prems(1) e obtain err where o1: "o1 = Returned err"
    by (cases o1) auto
  let ?w2 = "report ctx ec err w1"
  from Cons.prems(1) e o1 have c: "ctx ?w2 = None"
    by (cases "ctx ?w2") auto
  with Cons.prems(1) e o1 have rest: "exit_children held ctx ec eles (h1, ?w2) = (Returned None, h', w')"
    by simp
  show ?case
  proof (cases "eles = []")
    case True
    with rest c show ?thesis by simp
  next
    case False
    from Cons.IH[OF rest False] show ?thesis .
  qed
qed

lemma exit_nil_unexpired:
  assumes "exit held ctx ec s (h, w) = (Returned None, h', w')"
    and "valid h s" and "s \<notin> held" and "state (deref h s) = Active"
    and "children (deref h s) \<noteq> [] \<or> reapers (deref h s) \<noteq> []"
  shows "ctx w' = None"
proof -
  let ?eles = "rev (children (deref h s))"
  obtain o1 h1 w1 where c: "exit_children (insert s held) ctx ec ?eles (h, w) = (o1, h1, w1)"
    by (metis prod_cases3)
  from assms(1-4) c have o1: "o1 = Returned None"
    by (cases o1) (auto split: option.splits prod.splits)
  obtain out w2 where r: "run_reapers ctx ec (rev (reapers (deref h1 s))) w1 = (out, w2)"
    by (cases "run_reapers ctx ec (rev (reapers (deref h1 s))) w1")
  from assms(1-4) c o1 r have ow: "out = Returned None" "w2 = w'" by simp_all
  have same: "deref h1 s = deref h s"
    using exit_children_held_same[OF c assms(2)] by simp
  show ?thesis
  proof (cases "reapers (deref h s) = []")
    case False
    then show ?thesis using run_reapers_nil_unexpired[of ctx ec _ w1 w'] r ow same by simp
  next
    case True
    with r same ow have "w' = w1" by simp
    moreover from True assms(5) have "?eles \<noteq> []" by simp
    ultimately show ?thesis using exit_children_nil_unexpired[of "insert s held" ctx ec ?eles h w h1 w1]
        c o1 by simp
  qed
qed

section \<open>The tree of the test, evaluated\<close>

lemmas tree_defs = spawn_of_def child_of_def tree_store_def must_spawn_def MustSpawn_def
   tree_spawned_def

lemma tree_spawned_eq: "tree_spawned ctx [rR, rA, rB, rC, rD, rE] w =
  (\<lparr>scopes =
     [\<lparr>state = Active, children = [(0, 1), (3, 4)], reapers = [Some rR], errors = 0, detach = NoDetach\<rparr>,
      \<lparr>state = Active, children = [(1, 2), (2, 3)], reapers = [Some rA], errors = 1, detach = RemoveFrom 0 0\<rparr>,
      \<lparr>state = Active, children = [], reapers = [Some rB], errors = 2, detach = RemoveFrom 1 1\<rparr>,
      \<lparr>state = Active, children = [], reapers = [Some rC], errors = 3, detach = RemoveFrom 1 2\<rparr>,
      \<lparr>state = Active, children = [(4, 5)], reapers = [Some rD], errors = 4, detach = RemoveFrom 0 3\<rparr>,
      \<lparr>state = Active, children = [], reapers = [Some rE], errors = 5, detach = RemoveFrom 4 4\<rparr>],
     next_elem = 5, next_chan = 6\<rparr>, w)"
  by (simp add: tree_defs example_defs)

lemma run_reapers_unexpired:
  assumes "\<forall>v. ctx v = None"
  shows "run_reapers ctx ec (map Some Q) w = (Returned None, fold (reap_step ctx ec) Q w)"
proof (induction Q arbitrary: w)
  case Nil
  show ?case by simp
next
  case (Cons f Q)
  show ?case using assms Cons.IH
    by (simp add: reap_step_def report_def split: prod.splits option.splits)
qed

section \<open>The stores of the examples are forests\<close>

lemma forest_root_store: "forest root_store"
  unfolding root_store_def by (rule forest_NewScope[OF forest_empty_store])

lemma forest_two_store: "forest two_store"
  unfolding two_store_def by (intro forest_Spawn forest_root_store)

lemma forest_three_store: "forest three_store"
  unfolding three_store_def by (intro forest_Spawn forest_two_store)

lemma three_store_order:
  "teardown_order {} three_store 0 = [mark 3, mark 2, mark 1]"
  by (simp add: teardown_order.simps three_store_def two_store_def example_defs)

lemma forest_one_store: "forest one_store"
  unfolding one_store_def by (intro forest_Spawn forest_root_store)

lemma forest_parent_child_store: "forest parent_child_store"
  unfolding parent_child_store_def
  by (intro forest_Spawn forest_NewChildScope forest_root_store)

section \<open>Registration on a scope that is done, or with a failing Spawner\<close>

text \<open>
  Claim C4. On a scope in the done state, \<^verbatim>\<open>Spawn\<close> returns the non-nil error of
  \<^verbatim>\<open>fmt.Errorf\<close> and leaves store and world as they were, whatever the Spawner is:
  the Spawner is not called (the result does not depend on it, and the world, which
  every call of a Spawner passes through, is untouched), and the reapers of the
  scope, like the rest of the store, are unchanged.
\<close>

theorem Spawn_done_fails:
  assumes "valid h s" and "state (deref h s) = Done"
  shows "Spawn ctx sp s (h, w) = (Returned (Some (not_active_error Done)), h, w)"
  using assms by (simp add: Spawn_def)

theorem Spawn_done_fails_witness:
  "valid done_store 0 \<and> state (deref done_store 0) = Done \<and>
   Spawn background (spawning 7 (mark 1)) 0 (done_store, [])
     = (Returned (Some (not_active_error Done)), done_store, [])"
  using Spawn_done_fails[of done_store 0 background "spawning 7 (mark 1)" "[]"]
  by (simp add: example_defs)

text \<open>
  Claim C5. On an active scope, when the Spawner returns a non-nil error \<open>e\<close> (and
  leaves the world as \<open>w1\<close>), \<^verbatim>\<open>Spawn\<close> returns that same \<open>e\<close> and the store is the
  one it started from: nothing is registered, the reapers are unchanged and the scope
  is still active.
\<close>

theorem Spawn_spawner_error:
  assumes "valid h s" and "state (deref h s) = Active" and "sp ctx w = ((r, Some e), w1)"
  shows "Spawn ctx sp s (h, w) = (Returned (Some e), h, w1)"
  using assms by (simp add: Spawn_def)

theorem Spawn_spawner_error_witness:
  "valid root_store 0 \<and> state (deref root_store 0) = Active \<and>
   Spawn background (spawn_failing ''boom'') 0 (root_store, [])
     = (Returned (Some (Err ''boom'')), root_store, []) \<and>
   reapers (deref root_store 0) = []"
  using Spawn_spawner_error[of root_store 0 "spawn_failing ''boom''" background "[]" None
      "Err ''boom''" "[]"]
  by (simp add: example_defs)

section \<open>Exit on a scope that is done\<close>

text \<open>
  Claim C6. On a scope in the done state (whose \<^verbatim>\<open>detach\<close> closure holds a scope of
  the store), \<^verbatim>\<open>Exit\<close> with any context and any options returns \<^verbatim>\<open>nil\<close> and leaves
  the world as it was: no Cleanup Action runs. The store \<open>h'\<close> it leaves is a fixed
  point: a further \<^verbatim>\<open>Exit\<close>, again with any context, options and world, returns
  \<^verbatim>\<open>nil\<close> and changes neither store nor world, so exiting twice is exiting once.
\<close>

theorem Exit_done_noop:
  assumes "valid h s" and "state (deref h s) = Done" and "parent_valid h s"
  shows "\<exists>h'. Exit ctx opts s (h, w) = (Returned None, h', w)
              \<and> Exit ctx' opts' s (h', w') = (Returned None, h', w')"
proof (cases "detach (deref h s)")
  case NoDetach
  let ?h' = "finalize s h"
  have 1: "Exit ctx opts s (h, w) = (Returned None, ?h', w)"
    using assms NoDetach by (simp add: Exit_inactive)
  have f: "finalize s ?h' = ?h'"
    using assms(1) by (simp add: finalize_def[of s "finalize s h"] deref_finalize assign_same)
  have 2: "Exit ctx' opts' s (?h', w') = (Returned None, ?h', w')"
    using assms NoDetach f by (simp add: Exit_inactive deref_finalize)
  from 1 2 show ?thesis by blast
next
  case (RemoveFrom p e)
  let ?h1 = "finalize s h"
  let ?h' = "assign p ((deref ?h1 p)
      \<lparr>children := filter (\<lambda>x. fst x \<noteq> e) (children (deref ?h1 p))\<rparr>) ?h1"
  have vp: "valid h p" using assms(3) RemoveFrom by (simp add: parent_valid_def)
  have 1: "Exit ctx opts s (h, w) = (Returned None, ?h', w)"
    using assms RemoveFrom vp by (simp add: Exit_inactive)
  have ds: "deref ?h' s = (deref h s)\<lparr>reapers := [], children := [], state := Done\<rparr>"
    using assms(1) vp by (simp add: deref_assign deref_finalize)
  have f: "finalize s ?h' = ?h'"
    unfolding finalize_def[of s ?h'] by (rule assign_same) (simp add: ds)
  have g: "assign p ((deref ?h' p)
      \<lparr>children := filter (\<lambda>x. fst x \<noteq> e) (children (deref ?h' p))\<rparr>) ?h' = ?h'"
    by (rule assign_same) (use vp in \<open>simp add: deref_assign\<close>)
  have 2: "Exit ctx' opts' s (?h', w') = (Returned None, ?h', w')"
    using assms(1) vp RemoveFrom
    by (simp add: Exit_inactive ds f g)
  from 1 2 show ?thesis by blast
qed

theorem Exit_done_noop_witness:
  "valid done_store 0 \<and> state (deref done_store 0) = Done \<and> parent_valid done_store 0 \<and>
   Exit expired [] 0 (done_store, []) = (Returned None, done_store, [])"
  using Exit_done_noop[of done_store 0 expired "[]" "[]" expired "[]" "[]"]
  by (simp add: example_defs)


section \<open>Creating a child\<close>

text \<open>
  Claim C7. On a scope that is not active, \<^verbatim>\<open>NewChildScope\<close> returns the address of
  the parent itself and the store unchanged (so the parent's children are as they
  were), and any \<^verbatim>\<open>Spawn\<close> on the returned address fails with the error of the
  parent's state, leaving store and world alone. On an active scope it returns an
  address that was not in the store before, now holding an active scope with no
  reapers and no children, and the parent's children are the old ones followed by
  the new address.
\<close>

theorem NewChildScope_result:
  assumes "valid h s"
  shows "(state (deref h s) \<noteq> Active \<longrightarrow>
            NewChildScope s opts h = (Returned s, h) \<and>
            (\<forall>ctx sp w. Spawn ctx sp s (h, w)
               = (Returned (Some (not_active_error (state (deref h s)))), h, w)))
       \<and> (state (deref h s) = Active \<longrightarrow>
            (\<exists>child h'. NewChildScope s opts h = (Returned child, h') \<and>
               \<not> valid h child \<and> valid h' child \<and> child \<noteq> s \<and>
               state (deref h' child) = Active \<and> reapers (deref h' child) = [] \<and>
               children (deref h' child) = [] \<and>
               map snd (children (deref h' s)) = map snd (children (deref h s)) @ [child]))"
  using assms
  by (auto simp: NewChildScope_def Spawn_def NewScope_def Let_def valid_def deref_def assign_def
      nth_append)

theorem NewChildScope_result_witness:
  "valid done_store 0 \<and> state (deref done_store 0) \<noteq> Active \<and>
   NewChildScope 0 [] done_store = (Returned 0, done_store) \<and>
   valid root_store 0 \<and> state (deref root_store 0) = Active \<and>
   fst (NewChildScope 0 [] root_store) = Returned 1 \<and>
   map snd (children (deref (snd (NewChildScope 0 [] root_store)) 0)) = [1] \<and>
   state (deref (snd (NewChildScope 0 [] root_store)) 1) = Active"
  using NewChildScope_result[of done_store 0 "[]"] NewChildScope_result[of root_store 0 "[]"]
  by (simp add: example_defs)

section \<open>The deferred function\<close>



section \<open>The order of teardown\<close>

text \<open>
  Claim C1. In a store that is a forest, \<^verbatim>\<open>Exit\<close> on a scope runs Cleanup Actions
  in the order of \<open>teardown_order\<close>, the reverse of the order of registration: first
  what is below the children, the most recently created child first and each child
  with its whole subtree before the next older one, then the scope's own Cleanup
  Actions, the most recently registered first. However \<^verbatim>\<open>Exit\<close> ends, the world it
  leaves is the world after a front part \<open>Q\<close> of that sequence has run, action by
  action in that order (\<open>reap_step\<close>); when \<^verbatim>\<open>Exit\<close> returns \<^verbatim>\<open>nil\<close>, \<open>Q\<close> is the
  whole sequence; and \<^verbatim>\<open>Exit\<close> does return \<^verbatim>\<open>nil\<close> when the context never expires
  and no registered Reaper is a \<^verbatim>\<open>nil\<close> func. The instance that follows is the
  scope with Cleanup Actions 1, 2, 3 registered in that order: \<^verbatim>\<open>Exit\<close> runs 3,
  then 2, then 1.
\<close>

theorem Exit_reverse_registration_order:
  assumes "forest h" and "valid h s" and "Exit ctx opts s (h, w) = (out, h', w')"
  shows "\<exists>Q. prefix (map Some Q) (teardown_order {} h s) \<and>
             w' = fold (reap_step ctx (fold apply_ExitOpt opts default_exitCfg)) Q w \<and>
             (out = Returned None \<longrightarrow> map Some Q = teardown_order {} h s) \<and>
             (parent_valid h s \<and> (\<forall>v. ctx v = None) \<and> None \<notin> set (teardown_order {} h s)
                \<longrightarrow> out = Returned None)"
proof -
  let ?ec = "fold apply_ExitOpt opts default_exitCfg"
  let ?P = "teardown_order {} h s"
  obtain o1 h1 w1 where e: "exit {} ctx ?ec s (h, w) = (o1, h1, w1)" by (metis prod_cases3)
  have w1: "w1 = w'" using Exit_world[of ctx opts s "(h, w)"] e assms(3) by simp
  have r: "ran ctx ?ec ?P w o1 w'" and nd: "o1 \<noteq> Deadlock"
    using exit_top_ran[OF assms(1,2) e] w1 by simp_all
  from r obtain Q where Q: "prefix (map Some Q) ?P" "w' = fold (reap_step ctx ?ec) Q w"
    "o1 = Returned None \<longrightarrow> map Some Q = ?P"
    unfolding ran_def by blast
  have ret: "out = Returned None \<Longrightarrow> o1 = Returned None"
    using Exit_Returned[of ctx opts s "(h, w)" None] assms(3) e by simp
  have all: "out = Returned None"
    if pv: "parent_valid h s" and bg: "\<forall>v. ctx v = None" and nn: "None \<notin> set ?P"
    using walk_complete[OF r nd bg nn] Exit_outcome[OF assms(2) pv, of ctx opts w] assms(3) e
    by simp
  show ?thesis
    by (rule exI[of _ Q]) (use Q ret all in blast)
qed

theorem Exit_reverse_registration_order_witness:
  "forest three_store \<and> valid three_store 0 \<and>
   reapers (deref three_store 0) = [mark 1, mark 2, mark 3] \<and>
   Exit background [] 0 (three_store, []) = (Returned None, done_store, [3, 2, 1]) \<and>
   teardown_order {} three_store 0 = [mark 3, mark 2, mark 1] \<and>
   (\<exists>Q. map Some Q = teardown_order {} three_store 0 \<and>
        [3, 2, 1] = fold (reap_step background (fold apply_ExitOpt [] default_exitCfg)) Q [])"
proof -
  have v: "valid three_store 0"
    by (simp add: three_store_def two_store_def example_defs)
  have r: "reapers (deref three_store 0) = [mark 1, mark 2, mark 3]"
    by (simp add: three_store_def two_store_def example_defs)
  have e: "Exit background [] 0 (three_store, []) = (Returned None, done_store, [3, 2, 1])"
    by (simp add: three_store_def two_store_def example_defs)
  from Exit_reverse_registration_order[OF forest_three_store v e]
  obtain Q where "map Some Q = teardown_order {} three_store 0"
    "[3, 2, 1] = fold (reap_step background (fold apply_ExitOpt [] default_exitCfg)) Q []"
    by blast
  then have "\<exists>Q. map Some Q = teardown_order {} three_store 0 \<and>
      [3, 2, 1] = fold (reap_step background (fold apply_ExitOpt [] default_exitCfg)) Q []"
    by blast
  with v r e forest_three_store three_store_order show ?thesis by blast
qed


section \<open>Exit under an expired context\<close>

text \<open>
  Claim C3, as stated, fails: the scope holds one Cleanup Action, the context is
  expired before \<^verbatim>\<open>Exit\<close> is called, \<^verbatim>\<open>Exit\<close> returns the context's error, and the
  world shows that the Cleanup Action has run. \<open>exit\<close> reads \<^verbatim>\<open>ctx.Err()\<close> after
  each step, never before the first.
\<close>

theorem Exit_expired_runs_newest_counterexample:
  "valid one_store 0 \<and> state (deref one_store 0) = Active \<and>
   reapers (deref one_store 0) = [mark 1] \<and>
   expired [] = Some (Err ''context deadline exceeded'') \<and>
   Exit expired [] 0 (one_store, [])
     = (Returned (Some (Err ''context deadline exceeded'')), done_store, [1])"
  by (simp add: one_store_def example_defs)

text \<open>
  Claim C3, amended. In a forest, on an active scope with at least one registered
  Cleanup Action (no Reaper below the scope being a \<^verbatim>\<open>nil\<close> func), if the context is
  expired in every world, \<^verbatim>\<open>Exit\<close> returns the context's error after at most one
  Cleanup Action has run. If the scope has no children, that is the scope's most
  recently registered Cleanup Action, which does run; every older one does not. If
  the scope has children, none of the scope's own Cleanup Actions runs: what has run
  is a front part, of length at most one, of the teardown order of the most recently
  created child.
\<close>

theorem Exit_expired_context:
  assumes "forest h" and "valid h s" and "parent_valid h s"
    and "state (deref h s) = Active" and "reapers (deref h s) \<noteq> []"
    and "None \<notin> set (teardown_order {} h s)"
    and "\<forall>v. ctx v = Some X"
    and "Exit ctx opts s (h, w) = (out, h', w')"
  shows "out = Returned (Some X) \<and>
         (\<exists>Q. length Q \<le> 1 \<and> w' = fold (reap_step ctx (fold apply_ExitOpt opts default_exitCfg)) Q w \<and>
              (if children (deref h s) = [] then map Some Q = [last (reapers (deref h s))]
               else prefix (map Some Q)
                      (teardown_order {s} h (snd (last (children (deref h s)))))))"
proof -
  let ?ec = "fold apply_ExitOpt opts default_exitCfg"
  let ?P = "teardown_order {} h s"
  let ?rs = "reapers (deref h s)"
  obtain o1 h1 w1 where e: "exit {} ctx ?ec s (h, w) = (o1, h1, w1)" by (metis prod_cases3)
  have w1: "w1 = w'" using Exit_world[of ctx opts s "(h, w)"] e assms(8) by simp
  have out: "out = o1" using Exit_outcome[OF assms(2,3), of ctx opts w] e assms(8) by simp
  have r: "ran ctx ?ec ?P w o1 w'" and nd: "o1 \<noteq> Deadlock"
    using exit_top_ran[OF assms(1,2) e] w1 by simp_all
  have P: "?P = concat (map (\<lambda>ele. teardown_order {s} h (snd ele)) (rev (children (deref h s))))
                @ rev ?rs"
    using teardown_order_active[OF assms(2) _ assms(4), of "{}"] by simp
  from r obtain Q0 where Q0: "prefix (map Some Q0) ?P" "w' = fold (reap_step ctx ?ec) Q0 w"
    "o1 = Returned None \<longrightarrow> map Some Q0 = ?P \<and> (Q0 \<noteq> [] \<longrightarrow> ctx w' = None)"
    "\<forall>e. o1 = Returned (Some e) \<longrightarrow> ctx w' = Some e"
    "o1 = Panicked \<longrightarrow> prefix (map Some Q0 @ [None]) ?P"
    unfolding ran_def by blast
  have "o1 \<noteq> Panicked"
  proof
    assume "o1 = Panicked"
    with Q0(5) have "prefix (map Some Q0 @ [None]) ?P" by simp
    from set_mono_prefix[OF this] assms(6) show False by auto
  qed
  moreover have "o1 \<noteq> Returned None"
  proof
    assume n: "o1 = Returned None"
    with Q0(3) assms(7) have "Q0 = []" by auto
    with n Q0(3) have "?P = []" by simp
    with P assms(5) show False by simp
  qed
  ultimately obtain x where x: "o1 = Returned (Some x)" using nd by (cases o1) auto
  with Q0(4) assms(7) have X: "o1 = Returned (Some X)" by simp
  have "\<exists>Q. length Q \<le> 1 \<and> w' = fold (reap_step ctx ?ec) Q w \<and>
              (if children (deref h s) = [] then map Some Q = [last ?rs]
               else prefix (map Some Q)
                      (teardown_order {s} h (snd (last (children (deref h s))))))"
  proof (cases "children (deref h s) = []")
    case True
    obtain f where f: "last ?rs = Some f"
      using assms(6) P last_in_set[OF assms(5)] by (cases "last ?rs") (auto simp: True)
    obtain rs' where rs: "rev ?rs = Some f # rs'"
      using assms(5) f by (cases "rev ?rs") (auto simp: last_rev[symmetric] simp del: last_rev)
    have "exit {} ctx ?ec s (h, w) =
            (Returned (Some X), finalize s h, reap_step ctx ?ec f w)"
      using assms(2,4,7) True rs
      by (simp add: reap_step_def report_def split: prod.splits option.splits)
    with e w1 have "w' = fold (reap_step ctx ?ec) [f] w" by simp
    then show ?thesis using True f by (intro exI[of _ "[f]"]) simp
  next
    case False
    let ?c = "snd (last (children (deref h s)))"
    obtain es where es: "rev (children (deref h s)) = last (children (deref h s)) # es"
      using False by (cases "rev (children (deref h s))") (auto simp: last_rev[symmetric] simp del: last_rev)
    have ck: "?c \<in> kids h s" using False assms(2) by (auto simp: kids_def)
    have vc: "valid h ?c" using forest_valid[OF assms(1) ck] .
    obtain o2 h2 w2 where e2: "exit {s} ctx ?ec ?c (h, w) = (o2, h2, w2)" by (metis prod_cases3)
    have r2: "ran ctx ?ec (teardown_order {s} h ?c) w o2 w2"
      using exit_ran(1)[of "(h, w)" ?c ctx ?ec "{s}"] assms(1) vc e2 by simp
    have "exit_children {s} ctx ?ec (rev (children (deref h s))) (h, w) =
            (case o2 of Returned err \<Rightarrow> (Returned (Some X), h2, report ctx ?ec err w2)
             | Panicked \<Rightarrow> (Panicked, h2, w2) | Deadlock \<Rightarrow> (Deadlock, h2, w2))"
      unfolding es using e2 assms(7) by (simp split: outcome.splits)
    then have "w1 = (case o2 of Returned err \<Rightarrow> report ctx ?ec err w2 | _ \<Rightarrow> w2)"
      using e assms(2,4) by (auto split: outcome.splits)
    moreover have "report ctx ?ec err w2 = w2" if "o2 = Returned err" for err
    proof (cases err)
      case None
      then show ?thesis by (simp add: report_def)
    next
      case (Some y)
      have "ctx w2 = Some y" using r2 unfolding that Some by (rule ran_ctx)
      with Some show ?thesis by (simp add: report_def)
    qed
    ultimately have "w' = w2" using w1 by (cases o2) auto
    moreover from r2 obtain Q where Q: "prefix (map Some Q) (teardown_order {s} h ?c)"
      "w2 = fold (reap_step ctx ?ec) Q w" "unexpired_between ctx ?ec Q w"
      unfolding ran_def by blast
    moreover have "length Q \<le> 1"
      using unexpired_between_expired[OF Q(3)] assms(7) by simp
    ultimately show ?thesis using False by (intro exI[of _ Q]) simp
  qed
  with X out show ?thesis by simp
qed


theorem Exit_expired_context_witness:
  "forest parent_child_store \<and> valid parent_child_store 0 \<and> parent_valid parent_child_store 0 \<and>
   state (deref parent_child_store 0) = Active \<and>
   reapers (deref parent_child_store 0) = [mark 4] \<and>
   children (deref parent_child_store 0) = [(0, 1)] \<and>
   reapers (deref parent_child_store 1) = [mark 5] \<and>
   teardown_order {} parent_child_store 0 = [mark 5, mark 4] \<and>
   (\<forall>v. expired v = Some (Err ''context deadline exceeded'')) \<and>
   fst (Exit expired [] 0 (parent_child_store, []))
     = Returned (Some (Err ''context deadline exceeded'')) \<and>
   snd (snd (Exit expired [] 0 (parent_child_store, []))) = [5] \<and>
   (\<exists>Q. length Q \<le> 1 \<and>
        [5] = fold (reap_step expired (fold apply_ExitOpt [] default_exitCfg)) Q [] \<and>
        prefix (map Some Q) (teardown_order {0} parent_child_store 1))"
proof -
  have facts: "valid parent_child_store 0" "parent_valid parent_child_store 0"
    "state (deref parent_child_store 0) = Active"
    "reapers (deref parent_child_store 0) = [mark 4]"
    "children (deref parent_child_store 0) = [(0, 1)]"
    "reapers (deref parent_child_store 1) = [mark 5]"
    by (simp_all add: parent_child_store_def example_defs)
  have ord: "teardown_order {} parent_child_store 0 = [mark 5, mark 4]"
    by (simp add: teardown_order.simps parent_child_store_def example_defs)
  have nn: "None \<notin> set (teardown_order {} parent_child_store 0)"
    unfolding ord by (simp add: mark_def)
  have ne: "reapers (deref parent_child_store 0) \<noteq> []" using facts(4) by simp
  have ex: "\<forall>v. expired v = Some (Err ''context deadline exceeded'')" by (simp add: expired_def)
  have e1: "fst (Exit expired [] 0 (parent_child_store, []))
              = Returned (Some (Err ''context deadline exceeded''))"
    and e3: "snd (snd (Exit expired [] 0 (parent_child_store, []))) = [5]"
    by (simp_all add: parent_child_store_def example_defs)
  have e: "Exit expired [] 0 (parent_child_store, [])
             = (Returned (Some (Err ''context deadline exceeded'')),
                fst (snd (Exit expired [] 0 (parent_child_store, []))), [5])"
    by (simp add: prod_eq_iff e1 e3)
  from Exit_expired_context[OF forest_parent_child_store facts(1,2,3) ne nn ex e]
  have "\<exists>Q. length Q \<le> 1 \<and>
        [5] = fold (reap_step expired (fold apply_ExitOpt [] default_exitCfg)) Q [] \<and>
        prefix (map Some Q) (teardown_order {0} parent_child_store 1)"
    using facts(5) by simp
  with facts ord ex e1 e3 forest_parent_child_store show ?thesis by simp
qed


section \<open>A \<^verbatim>\<open>nil\<close> Reaper\<close>

text \<open>
  Claim C10. On an active scope of a forest, when the Spawner returns
  \<^verbatim>\<open>(nil, nil)\<close>, \<^verbatim>\<open>Spawn\<close> returns \<^verbatim>\<open>nil\<close> and the \<^verbatim>\<open>nil\<close> Reaper is appended to the
  scope's reapers. Any later \<^verbatim>\<open>Exit\<close> of that scope under a context that never
  expires panics: it does not return.
\<close>

theorem Spawn_nil_Reaper_then_Exit_panics:
  assumes "forest h" and "valid h s" and "state (deref h s) = Active"
    and "sp ctx w = ((None, None), w1)"
  shows "\<exists>h1. Spawn ctx sp s (h, w) = (Returned None, h1, w1) \<and>
              reapers (deref h1 s) = reapers (deref h s) @ [None] \<and>
              (\<forall>ctx2 opts w2. (\<forall>v. ctx2 v = None) \<longrightarrow>
                 fst (Exit ctx2 opts s (h1, w2)) = Panicked)"
proof -
  let ?h1 = "assign s ((deref h s)\<lparr>reapers := reapers (deref h s) @ [None]\<rparr>) h"
  have sp: "Spawn ctx sp s (h, w) = (Returned None, ?h1, w1)"
    using assms by (simp add: Spawn_def)
  have r: "reapers (deref ?h1 s) = reapers (deref h s) @ [None]"
    using assms(2) by (simp add: deref_assign)
  have f1: "forest ?h1" using forest_Spawn[OF assms(1), of ctx sp s w] sp by simp
  have v1: "valid ?h1 s" using assms(2) by simp
  have a1: "state (deref ?h1 s) = Active" using assms(2,3) by (simp add: deref_assign)
  have nil: "None \<in> set (teardown_order {} ?h1 s)"
    using teardown_order_active[OF v1 _ a1, of "{}"] r by simp
  have "fst (Exit ctx2 opts s (?h1, w2)) = Panicked" if bg: "\<forall>v. ctx2 v = None" for ctx2 opts w2
  proof -
    let ?ec = "fold apply_ExitOpt opts default_exitCfg"
    obtain o1 h2 w3 where e: "exit {} ctx2 ?ec s (?h1, w2) = (o1, h2, w3)" by (metis prod_cases3)
    have rn: "ran ctx2 ?ec (teardown_order {} ?h1 s) w2 o1 w3" and nd: "o1 \<noteq> Deadlock"
      using exit_top_ran[OF f1 v1 e] by simp_all
    from rn obtain Q where Q: "o1 = Returned None \<longrightarrow> map Some Q = teardown_order {} ?h1 s"
      "\<forall>e. o1 = Returned (Some e) \<longrightarrow> ctx2 w3 = Some e"
      unfolding ran_def by blast
    have "o1 \<noteq> Returned None"
    proof
      assume "o1 = Returned None"
      with Q(1) have "set (map Some Q) = set (teardown_order {} ?h1 s)" by simp
      with nil show False by auto
    qed
    moreover have "o1 \<noteq> Returned (Some x)" for x using Q(2) bg by auto
    ultimately have "o1 = Panicked" using nd by (cases o1) auto
    then show ?thesis using Exit_Panicked[of ctx2 opts s "(?h1, w2)"] e by simp
  qed
  with sp r show ?thesis by blast
qed

theorem Spawn_nil_Reaper_then_Exit_panics_witness:
  "forest root_store \<and> valid root_store 0 \<and> state (deref root_store 0) = Active \<and>
   spawn_nil background [] = ((None, None), []) \<and>
   fst (Spawn background spawn_nil 0 (root_store, [])) = Returned None \<and>
   reapers (deref (fst (snd (Spawn background spawn_nil 0 (root_store, [])))) 0) = [None] \<and>
   (\<forall>v. background v = None) \<and>
   fst (Exit background [] 0 (snd (Spawn background spawn_nil 0 (root_store, [])))) = Panicked"
  using Spawn_nil_Reaper_then_Exit_panics[of root_store 0 spawn_nil background "[]" "[]"]
    forest_root_store
  by (simp add: example_defs spawn_nil_def)



section \<open>Where teardown errors go\<close>

text \<open>
  Claim C2, as stated, fails in its last part: the scope's one Cleanup Action fails
  with \<^verbatim>\<open>boom\<close>, which is not the context's error, and the context is expired. The
  observer is called once with \<^verbatim>\<open>boom\<close> (the log is 1, then 100), and \<^verbatim>\<open>Exit\<close> returns
  the context's error, not \<^verbatim>\<open>nil\<close>.
\<close>

theorem Exit_observed_failure_counterexample:
  "reapers (deref fail_store 0) = [failing 1 ''boom''] \<and>
   Err ''boom'' \<noteq> (Err ''context deadline exceeded'' :: string error) \<and>
   Exit expired [observer] 0 (fail_store, [])
     = (Returned (Some (Err ''context deadline exceeded'')), done_store, [1, 100])"
  by (simp add: fail_store_def observer_def example_defs)

text \<open>
  Claim C2, amended. Whatever the store, the scope, the context and the options, an
  error that \<^verbatim>\<open>Exit\<close> returns is the context's error in the world \<^verbatim>\<open>Exit\<close> leaves.
  In a forest, the world \<^verbatim>\<open>Exit\<close> leaves is the world after a front part \<open>Q\<close> of the
  teardown order has run, each Cleanup Action once, where an action that returns an
  error other than the context's error (as the context stands when the action has
  returned) is followed by one call of the configured observer with that error, and
  by no other call of it; no such error is ever the return value. What \<^verbatim>\<open>Exit\<close>
  returns is decided by the context alone: when no registered Reaper is a \<^verbatim>\<open>nil\<close>
  func, \<^verbatim>\<open>Exit\<close> returns \<^verbatim>\<open>nil\<close> if the context is unexpired in the world it leaves,
  and it returns the context's error, not \<^verbatim>\<open>nil\<close>, if the context is expired there
  and a Cleanup Action has run (\<open>Q\<close> is not empty), or more generally the scope was
  active with a child or a Cleanup Action of its own. So a Reaper that fails with an
  error other than the context's has that error observed once, and \<^verbatim>\<open>Exit\<close> returns
  \<^verbatim>\<open>nil\<close> under a context that is unexpired at the end and the context's error under
  one that is expired.
\<close>

theorem Exit_error_routing:
  assumes "Exit ctx opts s (h, w) = (out, h', w')"
  shows "(\<forall>e. out = Returned (Some e) \<longrightarrow> ctx w' = Some e) \<and>
         (forest h \<and> valid h s \<longrightarrow>
            (\<exists>Q. prefix (map Some Q) (teardown_order {} h s) \<and>
                 w' = fold (\<lambda>r v. case r ctx v of
                                     (None, v1) \<Rightarrow> v1
                                   | (Some e, v1) \<Rightarrow>
                                       if Some e \<noteq> ctx v1
                                       then onError (fold apply_ExitOpt opts default_exitCfg) e v1
                                       else v1) Q w \<and>
                 (parent_valid h s \<and> None \<notin> set (teardown_order {} h s) \<longrightarrow>
                    (\<forall>X. Q \<noteq> [] \<and> ctx w' = Some X \<longrightarrow> out = Returned (Some X)))) \<and>
            (ctx w' = None \<longrightarrow> out = Returned None \<or> out = Panicked) \<and>
            (parent_valid h s \<and> None \<notin> set (teardown_order {} h s) \<longrightarrow>
               (ctx w' = None \<longrightarrow> out = Returned None) \<and>
               (\<forall>X. ctx w' = Some X \<and> state (deref h s) = Active \<and>
                    (children (deref h s) \<noteq> [] \<or> reapers (deref h s) \<noteq> [])
                  \<longrightarrow> out = Returned (Some X))))"
proof (intro conjI impI)
  show "\<forall>e. out = Returned (Some e) \<longrightarrow> ctx w' = Some e"
  proof (intro allI impI)
    fix e assume "out = Returned (Some e)"
    with assms have "Exit ctx opts s (h, w) = (Returned (Some e), h', w')" by simp
    then show "ctx w' = Some e" by (rule Exit_returns_ctx_error)
  qed
next
  let ?ec = "fold apply_ExitOpt opts default_exitCfg"
  let ?P = "teardown_order {} h s"
  assume fv: "forest h \<and> valid h s"
  obtain o1 h1 w1 where e: "exit {} ctx ?ec s (h, w) = (o1, h1, w1)" by (metis prod_cases3)
  have w1: "w1 = w'" using Exit_world[of ctx opts s "(h, w)"] e assms by simp
  have r: "ran ctx ?ec ?P w o1 w'" and nd: "o1 \<noteq> Deadlock"
    using exit_top_ran[OF _ _ e] fv w1 by simp_all
  have step: "reap_step ctx ?ec = (\<lambda>r v. case r ctx v of
                                     (None, v1) \<Rightarrow> v1
                                   | (Some e, v1) \<Rightarrow>
                                       if Some e \<noteq> ctx v1 then onError ?ec e v1 else v1)"
    by (intro ext) (simp add: reap_step_def)
  from r obtain Q where Q: "prefix (map Some Q) ?P" "w' = fold (reap_step ctx ?ec) Q w"
    "o1 = Returned None \<longrightarrow> map Some Q = ?P \<and> (Q \<noteq> [] \<longrightarrow> ctx w' = None)"
    "\<forall>e. o1 = Returned (Some e) \<longrightarrow> ctx w' = Some e"
    "o1 = Panicked \<longrightarrow> prefix (map Some Q @ [None]) ?P"
    unfolding ran_def by blast
  have good: "out = o1 \<and> (o1 = Returned None \<or> (\<exists>x. o1 = Returned (Some x)))"
    if pv: "parent_valid h s" and nn: "None \<notin> set ?P"
  proof -
    have "o1 \<noteq> Panicked"
    proof
      assume "o1 = Panicked"
      with Q(5) have "prefix (map Some Q @ [None]) ?P" by simp
      from set_mono_prefix[OF this] nn show False by auto
    qed
    with nd have "o1 = Returned None \<or> (\<exists>x. o1 = Returned (Some x))"
      by (cases o1) auto
    moreover have "out = o1"
      using Exit_outcome[of h s ctx opts w] fv pv e assms by simp
    ultimately show ?thesis by simp
  qed
  have qx: "out = Returned (Some X)"
    if "parent_valid h s \<and> None \<notin> set ?P" and "Q \<noteq> [] \<and> ctx w' = Some X" for X
  proof -
    from good that(1) have o: "out = o1" "o1 = Returned None \<or> (\<exists>x. o1 = Returned (Some x))"
      by simp_all
    from Q(3) that(2) have "o1 \<noteq> Returned None" by auto
    with o(2) obtain x where x: "o1 = Returned (Some x)" by blast
    with Q(4) that(2) have "x = X" by simp
    with x o(1) show ?thesis by simp
  qed
  show "\<exists>Q. prefix (map Some Q) ?P \<and>
                 w' = fold (\<lambda>r v. case r ctx v of
                                     (None, v1) \<Rightarrow> v1
                                   | (Some e, v1) \<Rightarrow>
                                       if Some e \<noteq> ctx v1 then onError ?ec e v1 else v1) Q w \<and>
                 (parent_valid h s \<and> None \<notin> set ?P \<longrightarrow>
                    (\<forall>X. Q \<noteq> [] \<and> ctx w' = Some X \<longrightarrow> out = Returned (Some X)))"
  proof (intro exI[of _ Q] conjI impI allI)
    show "prefix (map Some Q) ?P" by (rule Q(1))
    show "w' = fold (\<lambda>r v. case r ctx v of
                                     (None, v1) \<Rightarrow> v1
                                   | (Some e, v1) \<Rightarrow>
                                       if Some e \<noteq> ctx v1 then onError ?ec e v1 else v1) Q w"
      using Q(2) unfolding step .
  next
    fix X assume "parent_valid h s \<and> None \<notin> set ?P" "Q \<noteq> [] \<and> ctx w' = Some X"
    then show "out = Returned (Some X)" by (rule qx)
  qed
  show "out = Returned None \<or> out = Panicked" if c: "ctx w' = None"
  proof -
    have "out \<noteq> Deadlock"
    proof
      assume d: "out = Deadlock"
      obtain o2 h2 where rd: "run_detach (detach (deref h1 s)) h1 = (o2, h2)"
        by (cases "run_detach (detach (deref h1 s)) h1")
      have "o2 \<noteq> Deadlock" using run_detach_not_deadlock rd by (cases o2) auto
      with d nd e rd assms show False
        by (cases o1; cases o2) (simp_all add: Exit_def)
    qed
    moreover have "out \<noteq> Returned (Some x)" for x
      using Exit_returns_ctx_error[of ctx opts s h w x h' w'] assms c by auto
    ultimately show ?thesis by (cases out) auto
  qed
  show "out = Returned None" if "parent_valid h s \<and> None \<notin> set ?P" and c: "ctx w' = None"
  proof -
    from good that(1) have o: "out = o1" "o1 = Returned None \<or> (\<exists>x. o1 = Returned (Some x))"
      by simp_all
    from Q(4) c have "o1 \<noteq> Returned (Some x)" for x by auto
    with o show ?thesis by auto
  qed
  show "\<forall>X. ctx w' = Some X \<and> state (deref h s) = Active \<and>
                    (children (deref h s) \<noteq> [] \<or> reapers (deref h s) \<noteq> [])
                  \<longrightarrow> out = Returned (Some X)"
    if pn: "parent_valid h s \<and> None \<notin> set ?P"
  proof (intro allI impI)
    fix X assume a: "ctx w' = Some X \<and> state (deref h s) = Active \<and>
                    (children (deref h s) \<noteq> [] \<or> reapers (deref h s) \<noteq> [])"
    from good pn have o: "out = o1" "o1 = Returned None \<or> (\<exists>x. o1 = Returned (Some x))"
      by simp_all
    have "o1 \<noteq> Returned None"
    proof
      assume n: "o1 = Returned None"
      have "ctx w' = None"
        using exit_nil_unexpired[of "{}" ctx ?ec s h w h1 w'] e n w1 fv a by simp
      with a show False by simp
    qed
    with o(2) obtain x where x: "o1 = Returned (Some x)" by blast
    with Q(4) a have "x = X" by simp
    with x o(1) show "out = Returned (Some X)" by simp
  qed
qed

theorem Exit_error_routing_witness:
  "forest fail_store \<and> valid fail_store 0 \<and> parent_valid fail_store 0 \<and>
   state (deref fail_store 0) = Active \<and>
   reapers (deref fail_store 0) = [failing 1 ''boom''] \<and>
   None \<notin> set (teardown_order {} fail_store 0) \<and>
   Exit background [observer] 0 (fail_store, []) = (Returned None, done_store, [1, 100]) \<and>
   background [1, 100] = None \<and>
   Exit expired [observer] 0 (fail_store, [])
     = (Returned (Some (Err ''context deadline exceeded'')), done_store, [1, 100]) \<and>
   expired [1, 100] = Some (Err ''context deadline exceeded'')"
proof -
  have f: "forest fail_store"
    unfolding fail_store_def by (intro forest_Spawn forest_root_store)
  have e: "Exit background [observer] 0 (fail_store, []) = (Returned None, done_store, [1, 100])"
    by (simp add: fail_store_def observer_def example_defs)
  have e2: "Exit expired [observer] 0 (fail_store, [])
     = (Returned (Some (Err ''context deadline exceeded'')), done_store, [1, 100])"
    by (simp add: fail_store_def observer_def example_defs)
  have rest: "valid fail_store 0" "reapers (deref fail_store 0) = [failing 1 ''boom'']"
    "background [1, 100] = None" "parent_valid fail_store 0"
    "state (deref fail_store 0) = Active"
    "expired [1, 100] = Some (Err ''context deadline exceeded'')"
    by (simp_all add: fail_store_def example_defs)
  have nn: "None \<notin> set (teardown_order {} fail_store 0)"
    by (simp add: teardown_order.simps fail_store_def example_defs)
  have x: "expired [1, 100] = Some (Err ''context deadline exceeded'')"
    using conjunct1[OF Exit_error_routing[OF e2]] by simp
  have y: "background [1, 100] = None \<longrightarrow>
             (Returned None :: string error option outcome) = Returned None"
    using conjunct1[OF conjunct2[OF conjunct2[OF
            mp[OF conjunct2[OF Exit_error_routing[OF e]] conjI[OF f rest(1)]]],
            THEN mp, OF conjI[OF rest(4) nn]]] .
  from f rest(1,2,4,5) nn e e2 x y rest(3) show ?thesis by simp
qed

section \<open>Exiting a child, then the root\<close>

text \<open>
  Claim C9, as stated, fails in its last part: in the tree of the test, after \<^verbatim>\<open>Exit\<close>
  of A and then \<^verbatim>\<open>Exit\<close> of R, the log is 3, 2, 1, 5, 4, 0. The Cleanup Action of E (5)
  has run before that of D (4): R's \<open>exit\<close> enters D, D's \<open>exit\<close> tears E down first
  and runs D's own Cleanup Action after.
\<close>

theorem Exit_root_runs_grandchild_first_counterexample:
  "snd (snd (Exit background [] 0 (snd (Exit background [] 1 family)))) = [3, 2, 1, 5, 4, 0]"
  unfolding family_def tree_spawned_eq
  by (simp add: example_defs marker_def)

text \<open>
  Claim C9, amended. In the tree of the test, with any six Cleanup Actions and a
  context that never expires, \<^verbatim>\<open>Exit\<close> of A returns \<^verbatim>\<open>nil\<close> having run the Cleanup
  Actions of C, B and A, in that order, and no other; A, B and C are done and R, D
  and E are active; D and E are as they were, and R still holds its Cleanup Action;
  R's children are D alone, while the internal \<open>exit\<close> by itself leaves them A and D
  (the element of A is removed by \<^verbatim>\<open>s.detach()\<close> in \<^verbatim>\<open>Exit\<close>). A following \<^verbatim>\<open>Exit\<close>
  of R returns \<^verbatim>\<open>nil\<close> having run the Cleanup Actions of E, D and R, in that order,
  and all six scopes are done.
\<close>

theorem Exit_child_then_root:
  assumes "\<forall>v. ctx v = None"
  shows "let hw0 = tree_spawned ctx [rR, rA, rB, rC, rD, rE] w;
             ec = fold apply_ExitOpt opts default_exitCfg;
             (outI, hI, wI) = exit {} ctx ec 1 hw0;
             (out1, h1, w1) = Exit ctx opts 1 hw0;
             (out2, h2, w2) = Exit ctx opts 0 (h1, w1)
         in out1 = Returned None \<and> w1 = fold (reap_step ctx ec) [rC, rB, rA] w \<and>
            map state (scopes h1) = [Active, Done, Done, Done, Active, Active] \<and>
            map snd (children (deref hI 0)) = [1, 4] \<and>
            map snd (children (deref h1 0)) = [4] \<and>
            reapers (deref h1 0) = [Some rR] \<and>
            deref h1 4 = deref (fst hw0) 4 \<and> deref h1 5 = deref (fst hw0) 5 \<and>
            out2 = Returned None \<and> w2 = fold (reap_step ctx ec) [rE, rD, rR] w1 \<and>
            map state (scopes h2) = [Done, Done, Done, Done, Done, Done]"
  unfolding tree_spawned_eq
  using assms run_reapers_unexpired[OF assms, of _ "[_]", simplified]
  by (simp add: Exit_def valid_def deref_def assign_def finalize_def report_def Let_def)

theorem Exit_child_then_root_witness:
  "(\<forall>v. background v = None) \<and>
   fst (Exit background [] 1 family) = Returned None \<and>
   snd (snd (Exit background [] 1 family)) = [3, 2, 1] \<and>
   map state (scopes (fst (snd (Exit background [] 1 family))))
     = [Active, Done, Done, Done, Active, Active] \<and>
   map snd (children (deref (fst (snd (exit {} background default_exitCfg 1 family))) 0)) = [1, 4] \<and>
   map snd (children (deref (fst (snd (Exit background [] 1 family))) 0)) = [4] \<and>
   Exit background [] 0 (snd (Exit background [] 1 family))
     = (Returned None, fst (snd (Exit background [] 0 (snd (Exit background [] 1 family)))),
        [3, 2, 1, 5, 4, 0])"
  using Exit_child_then_root[of background "marker 0" "marker 1" "marker 2" "marker 3"
      "marker 4" "marker 5" "[]" "[]"]
  unfolding family_def tree_spawned_eq
  by (simp add: example_defs marker_def reap_step_def)



end
